theory Spec2Isabelle
  imports Main "HOL-Library.Word"
begin

section \<open>The node store\<close>

text \<open>
  A node pointer is an optional address; \<open>None\<close> is \<open>nullptr\<close>.  The store maps the
  addresses of live nodes to their contents.  Every node carries its two values and two
  independent linkage triples, one for the tree ordered by left values and one for the tree
  ordered by right values.
\<close>

type_synonym addr = nat
type_synonym ptr = "addr option"

record tree_node_t =
  left :: ptr
  right :: ptr
  parent :: ptr

record ('l, 'r) node_t =
  left_value :: 'l
  right_value :: 'r
  left_tree_data :: tree_node_t
  right_tree_data :: tree_node_t

type_synonym ('l, 'r) heap = "addr \<Rightarrow> ('l, 'r) node_t option"

definition tree_node_init :: tree_node_t where
  "tree_node_init = \<lparr>left = None, right = None, parent = None\<rparr>"

definition node_init :: "'l \<Rightarrow> 'r \<Rightarrow> ('l, 'r) node_t" where
  "node_init l r = \<lparr>left_value = l, right_value = r,
     left_tree_data = tree_node_init, right_tree_data = tree_node_init\<rparr>"

text \<open>
  Reading or writing through a null pointer, or through the address of a node that has been
  deleted, is an error of the model.  \<open>OutOfRange\<close> is the exception thrown by the checked
  lookups, \<open>OutOfFuel\<close> is a loop that did not finish within its iteration bound.
\<close>

datatype error = NullDeref | DanglingDeref | OutOfRange | OutOfFuel

definition bind :: "error + 'a \<Rightarrow> ('a \<Rightarrow> error + 'b) \<Rightarrow> error + 'b" where
  "bind m f = (case m of Inl e \<Rightarrow> Inl e | Inr x \<Rightarrow> f x)"

definition deref :: "(addr \<Rightarrow> 'n option) \<Rightarrow> ptr \<Rightarrow> error + 'n" where
  "deref h p = (case p of None \<Rightarrow> Inl NullDeref
     | Some a \<Rightarrow> (case h a of None \<Rightarrow> Inl DanglingDeref | Some n \<Rightarrow> Inr n))"

definition modify :: "ptr \<Rightarrow> ('n \<Rightarrow> 'n) \<Rightarrow> (addr \<Rightarrow> 'n option) \<Rightarrow> error + (addr \<Rightarrow> 'n option)" where
  "modify p f h = (case p of None \<Rightarrow> Inl NullDeref
     | Some a \<Rightarrow> (case h a of None \<Rightarrow> Inl DanglingDeref | Some n \<Rightarrow> Inr (h(a \<mapsto> f n))))"

text \<open>Short-circuit conjunction of two conditions that read the store.\<close>

definition andalso :: "error + bool \<Rightarrow> error + bool \<Rightarrow> error + bool" where
  "andalso a b = bind a (\<lambda>x. if x then b else Inr False)"

section \<open>Side descriptors\<close>

text \<open>
  A descriptor selects one of the two linkage triples of a node together with the value that
  orders that side.  The generic algorithms take the descriptor as a parameter, as the
  templates of the source do.
\<close>

record ('n, 'v) descriptor =
  links :: "'n \<Rightarrow> tree_node_t"
  set_links :: "tree_node_t \<Rightarrow> 'n \<Rightarrow> 'n"
  value_of :: "'n \<Rightarrow> 'v"

definition left_descriptor_t :: "(('l, 'r) node_t, 'l) descriptor" where
  "left_descriptor_t = \<lparr>links = left_tree_data,
     set_links = (\<lambda>t n. n\<lparr>left_tree_data := t\<rparr>), value_of = left_value\<rparr>"

definition right_descriptor_t :: "(('l, 'r) node_t, 'r) descriptor" where
  "right_descriptor_t = \<lparr>links = right_tree_data,
     set_links = (\<lambda>t n. n\<lparr>right_tree_data := t\<rparr>), value_of = right_value\<rparr>"

definition get_left :: "('n, 'v) descriptor \<Rightarrow> (addr \<Rightarrow> 'n option) \<Rightarrow> ptr \<Rightarrow> error + ptr" where
  "get_left D h p = bind (deref h p) (\<lambda>n. Inr (left (links D n)))"

definition get_right :: "('n, 'v) descriptor \<Rightarrow> (addr \<Rightarrow> 'n option) \<Rightarrow> ptr \<Rightarrow> error + ptr" where
  "get_right D h p = bind (deref h p) (\<lambda>n. Inr (right (links D n)))"

definition get_parent :: "('n, 'v) descriptor \<Rightarrow> (addr \<Rightarrow> 'n option) \<Rightarrow> ptr \<Rightarrow> error + ptr" where
  "get_parent D h p = bind (deref h p) (\<lambda>n. Inr (parent (links D n)))"

definition get_value :: "('n, 'v) descriptor \<Rightarrow> (addr \<Rightarrow> 'n option) \<Rightarrow> ptr \<Rightarrow> error + 'v" where
  "get_value D h p = bind (deref h p) (\<lambda>n. Inr (value_of D n))"

definition put_left ::
  "('n, 'v) descriptor \<Rightarrow> ptr \<Rightarrow> ptr \<Rightarrow> (addr \<Rightarrow> 'n option) \<Rightarrow> error + (addr \<Rightarrow> 'n option)" where
  "put_left D p v h = modify p (\<lambda>n. set_links D ((links D n)\<lparr>left := v\<rparr>) n) h"

definition put_right ::
  "('n, 'v) descriptor \<Rightarrow> ptr \<Rightarrow> ptr \<Rightarrow> (addr \<Rightarrow> 'n option) \<Rightarrow> error + (addr \<Rightarrow> 'n option)" where
  "put_right D p v h = modify p (\<lambda>n. set_links D ((links D n)\<lparr>right := v\<rparr>) n) h"

definition put_parent ::
  "('n, 'v) descriptor \<Rightarrow> ptr \<Rightarrow> ptr \<Rightarrow> (addr \<Rightarrow> 'n option) \<Rightarrow> error + (addr \<Rightarrow> 'n option)" where
  "put_parent D p v h = modify p (\<lambda>n. set_links D ((links D n)\<lparr>parent := v\<rparr>) n) h"

section \<open>The splay-tree engine\<close>

definition set_parent ::
  "('n, 'v) descriptor \<Rightarrow> ptr \<Rightarrow> ptr \<Rightarrow> (addr \<Rightarrow> 'n option) \<Rightarrow> error + (addr \<Rightarrow> 'n option)" where
  "set_parent D t p h = (if t \<noteq> None then put_parent D t p h else Inr h)"

definition relink_child ::
  "('n, 'v) descriptor \<Rightarrow> ptr \<Rightarrow> ptr \<Rightarrow> ptr \<Rightarrow> (addr \<Rightarrow> 'n option) \<Rightarrow> error + (addr \<Rightarrow> 'n option)" where
  \<comment> \<open>the common head of both rotations: the grandparent \<open>q\<close> adopts \<open>x\<close> in place of \<open>p\<close>\<close>
  "relink_child D q p x h =
     (if q \<noteq> None then
        bind (get_left D h q) (\<lambda>ql. if ql = p then put_left D q x h else put_right D q x h)
      else Inr h)"

definition rotate_left ::
  "('n, 'v) descriptor \<Rightarrow> ptr \<Rightarrow> ptr \<Rightarrow> (addr \<Rightarrow> 'n option) \<Rightarrow> error + (ptr \<times> (addr \<Rightarrow> 'n option))" where
  "rotate_left D x p h =
     bind (get_parent D h p) (\<lambda>q.
     bind (relink_child D q p x h) (\<lambda>h.
     bind (get_parent D h p) (\<lambda>pp.
     bind (put_parent D x pp h) (\<lambda>h.
     bind (put_parent D p x h) (\<lambda>h.
     bind (get_left D h x) (\<lambda>xl.
     bind (put_right D p xl h) (\<lambda>h.
     bind (get_left D h x) (\<lambda>xl.
     bind (set_parent D xl p h) (\<lambda>h.
     bind (put_left D x p h) (\<lambda>h.
     Inr (x, h)))))))))))"

definition rotate_right ::
  "('n, 'v) descriptor \<Rightarrow> ptr \<Rightarrow> ptr \<Rightarrow> (addr \<Rightarrow> 'n option) \<Rightarrow> error + (ptr \<times> (addr \<Rightarrow> 'n option))" where
  "rotate_right D x p h =
     bind (get_parent D h p) (\<lambda>q.
     bind (relink_child D q p x h) (\<lambda>h.
     bind (get_parent D h p) (\<lambda>pp.
     bind (put_parent D x pp h) (\<lambda>h.
     bind (put_parent D p x h) (\<lambda>h.
     bind (get_right D h x) (\<lambda>xr.
     bind (put_left D p xr h) (\<lambda>h.
     bind (get_right D h x) (\<lambda>xr.
     bind (set_parent D xr p h) (\<lambda>h.
     bind (put_right D x p h) (\<lambda>h.
     Inr (x, h)))))))))))"

definition ptr_is :: "error + ptr \<Rightarrow> ptr \<Rightarrow> error + bool" where
  "ptr_is m p = bind m (\<lambda>q. Inr (q = p))"

text \<open>One round of the splay loop, for a node \<open>t\<close> whose parent \<open>p\<close> is not null.\<close>

definition splay_step ::
  "('n, 'v) descriptor \<Rightarrow> ptr \<Rightarrow> ptr \<Rightarrow> (addr \<Rightarrow> 'n option) \<Rightarrow> error + (ptr \<times> (addr \<Rightarrow> 'n option))" where
  "splay_step D t p h =
     bind (get_parent D h p) (\<lambda>pp.
     if pp = None then
       bind (ptr_is (get_right D h p) t) (\<lambda>c.
       if c then rotate_left D t p h else rotate_right D t p h)
     else
       bind (get_parent D h p) (\<lambda>g.
       bind (andalso (ptr_is (get_left D h g) p) (ptr_is (get_left D h p) t)) (\<lambda>c1.
       if c1 then
         bind (rotate_right D p g h) (\<lambda>(p, h). rotate_right D t p h)
       else
       bind (andalso (ptr_is (get_right D h g) p) (ptr_is (get_right D h p) t)) (\<lambda>c2.
       if c2 then
         bind (rotate_left D p g h) (\<lambda>(p, h). rotate_left D t p h)
       else
       bind (andalso (ptr_is (get_left D h g) p) (ptr_is (get_right D h p) t)) (\<lambda>c3.
       if c3 then
         bind (rotate_left D t p h) (\<lambda>(t, h). rotate_right D t g h)
       else
         bind (rotate_right D t p h) (\<lambda>(t, h). rotate_left D t g h))))))"

fun splay_loop ::
  "nat \<Rightarrow> ('n, 'v) descriptor \<Rightarrow> ptr \<Rightarrow> (addr \<Rightarrow> 'n option) \<Rightarrow> error + (ptr \<times> (addr \<Rightarrow> 'n option))" where
  "splay_loop 0 D t h = Inl OutOfFuel"
| "splay_loop (Suc k) D t h =
     bind (get_parent D h t) (\<lambda>p.
     if p \<noteq> None then bind (splay_step D t p h) (\<lambda>(t, h). splay_loop k D t h)
     else Inr (t, h))"

definition splay ::
  "nat \<Rightarrow> ('n, 'v) descriptor \<Rightarrow> ptr \<Rightarrow> (addr \<Rightarrow> 'n option) \<Rightarrow> error + (ptr \<times> (addr \<Rightarrow> 'n option))" where
  "splay fuel D t h = (if t = None then Inr (None, h) else splay_loop fuel D t h)"

fun sink_left_loop :: "nat \<Rightarrow> ('n, 'v) descriptor \<Rightarrow> (addr \<Rightarrow> 'n option) \<Rightarrow> ptr \<Rightarrow> error + ptr" where
  "sink_left_loop 0 D h t = Inl OutOfFuel"
| "sink_left_loop (Suc k) D h t =
     bind (get_left D h t) (\<lambda>l. if l \<noteq> None then sink_left_loop k D h l else Inr t)"

definition sink_left :: "nat \<Rightarrow> ('n, 'v) descriptor \<Rightarrow> (addr \<Rightarrow> 'n option) \<Rightarrow> ptr \<Rightarrow> error + ptr" where
  "sink_left fuel D h t = sink_left_loop fuel D h t"

fun sink_right_loop :: "nat \<Rightarrow> ('n, 'v) descriptor \<Rightarrow> (addr \<Rightarrow> 'n option) \<Rightarrow> ptr \<Rightarrow> error + ptr" where
  "sink_right_loop 0 D h t = Inl OutOfFuel"
| "sink_right_loop (Suc k) D h t =
     bind (get_right D h t) (\<lambda>r. if r \<noteq> None then sink_right_loop k D h r else Inr t)"

definition sink_right :: "nat \<Rightarrow> ('n, 'v) descriptor \<Rightarrow> (addr \<Rightarrow> 'n option) \<Rightarrow> ptr \<Rightarrow> error + ptr" where
  "sink_right fuel D h t = sink_right_loop fuel D h t"

text \<open>
  \<open>find\<close> descends by the comparator and splays the last node of the search path.  The
  first argument bounds the depth of the descent, \<open>fuel\<close> bounds the splay loop.
\<close>

fun find_rec ::
  "nat \<Rightarrow> nat \<Rightarrow> ('n, 'v) descriptor \<Rightarrow> ptr \<Rightarrow> 'v \<Rightarrow> ('v \<Rightarrow> 'v \<Rightarrow> bool) \<Rightarrow> (addr \<Rightarrow> 'n option)
     \<Rightarrow> error + (ptr \<times> (addr \<Rightarrow> 'n option))" where
  "find_rec 0 fuel D t x compare h = Inl OutOfFuel"
| "find_rec (Suc k) fuel D t x compare h =
     (if t = None then Inr (None, h) else
      bind (andalso (bind (get_value D h t) (\<lambda>v. Inr (compare x v)))
                    (bind (get_left D h t) (\<lambda>l. Inr (l \<noteq> None)))) (\<lambda>c1.
      if c1 then bind (get_left D h t) (\<lambda>l. find_rec k fuel D l x compare h) else
      bind (andalso (bind (get_value D h t) (\<lambda>v. Inr (compare v x)))
                    (bind (get_right D h t) (\<lambda>r. Inr (r \<noteq> None)))) (\<lambda>c2.
      if c2 then bind (get_right D h t) (\<lambda>r. find_rec k fuel D r x compare h) else
      splay fuel D t h)))"

definition find_node ::
  "nat \<Rightarrow> ('n, 'v) descriptor \<Rightarrow> ptr \<Rightarrow> 'v \<Rightarrow> ('v \<Rightarrow> 'v \<Rightarrow> bool) \<Rightarrow> (addr \<Rightarrow> 'n option)
     \<Rightarrow> error + (ptr \<times> (addr \<Rightarrow> 'n option))" where
  "find_node fuel D t x compare h = find_rec fuel fuel D t x compare h"


definition find_element ::
  "nat \<Rightarrow> ('n, 'v) descriptor \<Rightarrow> (ptr \<Rightarrow> 'it) \<Rightarrow> ptr \<Rightarrow> 'v \<Rightarrow> ('v \<Rightarrow> 'v \<Rightarrow> bool)
     \<Rightarrow> (addr \<Rightarrow> 'n option) \<Rightarrow> error + ('it \<times> ptr \<times> (addr \<Rightarrow> 'n option))" where
  \<comment> \<open>\<open>Iterator\<close> stands for the constructor \<open>Iterator(this, _)\<close>; the updated root is returned\<close>
  "find_element fuel D Iterator root desired compare h =
     bind (find_node fuel D root desired compare h) (\<lambda>(found, h).
     if found \<noteq> None then
       bind (get_value D h found) (\<lambda>v.
       if v = desired then Inr (Iterator found, found, h) else Inr (Iterator None, found, h))
     else Inr (Iterator None, root, h))"

definition split_node ::
  "nat \<Rightarrow> ('n, 'v) descriptor \<Rightarrow> ptr \<Rightarrow> 'v \<Rightarrow> ('v \<Rightarrow> 'v \<Rightarrow> bool) \<Rightarrow> (addr \<Rightarrow> 'n option)
     \<Rightarrow> error + ((ptr \<times> ptr) \<times> (addr \<Rightarrow> 'n option))" where
  "split_node fuel D t x compare h =
     (if t = None then Inr ((None, None), h) else
      bind (find_node fuel D t x compare h) (\<lambda>(t, h).
      bind (get_value D h t) (\<lambda>v.
      if \<not> compare x v then
        bind (get_right D h t) (\<lambda>q.
        bind (set_parent D q None h) (\<lambda>h.
        bind (put_right D t None h) (\<lambda>h.
        Inr ((t, q), h))))
      else
        bind (get_left D h t) (\<lambda>q.
        bind (set_parent D q None h) (\<lambda>h.
        bind (put_left D t None h) (\<lambda>h.
        Inr ((q, t), h)))))))"

definition merge_node ::
  "nat \<Rightarrow> ('n, 'v) descriptor \<Rightarrow> ptr \<Rightarrow> ptr \<Rightarrow> ('v \<Rightarrow> 'v \<Rightarrow> bool) \<Rightarrow> (addr \<Rightarrow> 'n option)
     \<Rightarrow> error + (ptr \<times> (addr \<Rightarrow> 'n option))" where
  "merge_node fuel D a b compare h =
     (if a = None then Inr (b, h)
      else if b = None then Inr (a, h)
      else
        bind (get_value D h a) (\<lambda>v.
        bind (find_node fuel D b v compare h) (\<lambda>(b, h).
        bind (put_left D b a h) (\<lambda>h.
        bind (set_parent D a b h) (\<lambda>h.
        Inr (b, h))))))"

definition insert_node ::
  "nat \<Rightarrow> ('n, 'v) descriptor \<Rightarrow> ptr \<Rightarrow> ptr \<Rightarrow> ('v \<Rightarrow> 'v \<Rightarrow> bool) \<Rightarrow> (addr \<Rightarrow> 'n option)
     \<Rightarrow> error + (ptr \<times> (addr \<Rightarrow> 'n option))" where
  \<comment> \<open>returns the new value of the reference parameter \<open>root\<close>\<close>
  "insert_node fuel D root new_node compare h =
     bind (get_value D h new_node) (\<lambda>v.
     bind (split_node fuel D root v compare h) (\<lambda>(p, h).
     let root = new_node in
     bind (put_left D root (fst p) h) (\<lambda>h.
     bind (put_right D root (snd p) h) (\<lambda>h.
     bind (set_parent D (fst p) root h) (\<lambda>h.
     bind (set_parent D (snd p) root h) (\<lambda>h.
     Inr (root, h)))))))"

section \<open>The container\<close>

record ('l, 'r) bimap =
  left_root :: ptr
  right_root :: ptr
  left_compare :: "'l \<Rightarrow> 'l \<Rightarrow> bool"
  right_compare :: "'r \<Rightarrow> 'r \<Rightarrow> bool"
  elements_count :: "64 word"

definition orelse :: "error + bool \<Rightarrow> error + bool \<Rightarrow> error + bool" where
  "orelse a b = bind a (\<lambda>x. if x then Inr True else b)"

text \<open>
  \<open>operator new\<close> hands out the address of storage that holds no live node.  The address
  is the parameter \<open>a\<close> of every operation that may allocate.
\<close>

definition alloc_node :: "addr \<Rightarrow> 'l \<Rightarrow> 'r \<Rightarrow> ('l, 'r) heap \<Rightarrow> ptr \<times> ('l, 'r) heap" where
  "alloc_node a l r h = (Some a, h(a \<mapsto> node_init l r))"

definition delete_node :: "ptr \<Rightarrow> (addr \<Rightarrow> 'n option) \<Rightarrow> error + (addr \<Rightarrow> 'n option)" where
  "delete_node p h = (case p of None \<Rightarrow> Inr h
     | Some a \<Rightarrow> (case h a of None \<Rightarrow> Inl DanglingDeref | Some n \<Rightarrow> Inr (h(a := None))))"

definition insert_by_values ::
  "nat \<Rightarrow> addr \<Rightarrow> 'l \<Rightarrow> 'r \<Rightarrow> ('l, 'r) bimap \<times> ('l, 'r) heap
     \<Rightarrow> error + (ptr \<times> ('l, 'r) bimap \<times> ('l, 'r) heap)" where
  "insert_by_values fuel a l r s =
     (case s of (b, h) \<Rightarrow>
     bind (find_node fuel left_descriptor_t (left_root b) l (left_compare b) h) (\<lambda>(lr, h).
     let b = b\<lparr>left_root := lr\<rparr> in
     bind (find_node fuel right_descriptor_t (right_root b) r (right_compare b) h) (\<lambda>(rr, h).
     let b = b\<lparr>right_root := rr\<rparr> in
     bind (andalso
             (orelse (Inr (left_root b = None))
                (bind (get_value left_descriptor_t h (left_root b)) (\<lambda>v. Inr (\<not> v = l))))
             (orelse (Inr (right_root b = None))
                (bind (get_value right_descriptor_t h (right_root b)) (\<lambda>v. Inr (\<not> v = r))))) (\<lambda>c.
     if c then
       (case alloc_node a l r h of (new_node, h) \<Rightarrow>
       bind (insert_node fuel left_descriptor_t (left_root b) new_node (left_compare b) h) (\<lambda>(lr, h).
       let b = b\<lparr>left_root := lr\<rparr> in
       bind (insert_node fuel right_descriptor_t (right_root b) new_node (right_compare b) h) (\<lambda>(rr, h).
       let b = b\<lparr>right_root := rr\<rparr> in
       let b = b\<lparr>elements_count := elements_count b + 1\<rparr> in
       Inr (left_root b, b, h))))
     else Inr (None, b, h)))))"

definition erase_node ::
  "nat \<Rightarrow> ('n, 'v) descriptor \<Rightarrow> ptr \<Rightarrow> ('v \<Rightarrow> 'v \<Rightarrow> bool) \<Rightarrow> (addr \<Rightarrow> 'n option)
     \<Rightarrow> error + (ptr \<times> ptr \<times> (addr \<Rightarrow> 'n option))" where
  \<comment> \<open>returns the detached node and the new value of the reference parameter \<open>root\<close>\<close>
  "erase_node fuel D root compare h =
     bind (get_left D h root) (\<lambda>l.
     bind (set_parent D l None h) (\<lambda>h.
     bind (get_right D h root) (\<lambda>r.
     bind (set_parent D r None h) (\<lambda>h.
     bind (get_left D h root) (\<lambda>l.
     bind (get_right D h root) (\<lambda>r.
     bind (merge_node fuel D l r compare h) (\<lambda>(new_root, h).
     let result = root in
     Inr (result, new_root, h))))))))"

definition erase_root ::
  "nat \<Rightarrow> ('n, 'v) descriptor \<Rightarrow> ('n, 'w) descriptor \<Rightarrow> ptr \<Rightarrow> ptr
     \<Rightarrow> ('v \<Rightarrow> 'v \<Rightarrow> bool) \<Rightarrow> ('w \<Rightarrow> 'w \<Rightarrow> bool) \<Rightarrow> 64 word \<Rightarrow> (addr \<Rightarrow> 'n option)
     \<Rightarrow> error + (ptr \<times> ptr \<times> 64 word \<times> (addr \<Rightarrow> 'n option))" where
  "erase_root fuel D1 D2 first_root second_root first_compare second_compare count h =
     bind (erase_node fuel D1 first_root first_compare h) (\<lambda>(excess, first_root, h).
     bind (erase_node fuel D2 second_root second_compare h) (\<lambda>(_, second_root, h).
     bind (delete_node excess h) (\<lambda>h.
     Inr (first_root, second_root, count - 1, h))))"

definition erase_element ::
  "nat \<Rightarrow> ('n, 'v) descriptor \<Rightarrow> ('n, 'w) descriptor \<Rightarrow> ptr \<Rightarrow> ptr \<Rightarrow> 'v
     \<Rightarrow> ('v \<Rightarrow> 'v \<Rightarrow> bool) \<Rightarrow> ('w \<Rightarrow> 'w \<Rightarrow> bool) \<Rightarrow> 64 word \<Rightarrow> (addr \<Rightarrow> 'n option)
     \<Rightarrow> error + (ptr \<times> ptr \<times> 64 word \<times> (addr \<Rightarrow> 'n option))" where
  "erase_element fuel D1 D2 first_root second_root key first_compare second_compare count h =
     bind (find_node fuel D1 first_root key first_compare h) (\<lambda>(first_root, h).
     bind (splay fuel D2 first_root h) (\<lambda>(second_root, h).
     bind (andalso (Inr (first_root \<noteq> None))
             (bind (get_value D1 h first_root) (\<lambda>v. Inr (v = key)))) (\<lambda>c.
     if c then
       erase_root fuel D1 D2 first_root second_root first_compare second_compare count h
     else Inr (first_root, second_root, count, h))))"

fun next_loop :: "nat \<Rightarrow> ('n, 'v) descriptor \<Rightarrow> (addr \<Rightarrow> 'n option) \<Rightarrow> ptr \<Rightarrow> error + ptr" where
  "next_loop 0 D h node = Inl OutOfFuel"
| "next_loop (Suc k) D h node =
     bind (get_parent D h node) (\<lambda>p.
     if p \<noteq> None then
       bind (get_left D h p) (\<lambda>pl. if pl = node then Inr p else next_loop k D h p)
     else Inr None)"

definition next_node :: "nat \<Rightarrow> ('n, 'v) descriptor \<Rightarrow> (addr \<Rightarrow> 'n option) \<Rightarrow> ptr \<Rightarrow> error + ptr" where
  "next_node fuel D h node =
     bind (get_right D h node) (\<lambda>r.
     if r \<noteq> None then sink_left fuel D h r else next_loop fuel D h node)"

text \<open>
  \<open>previous\<close> (source line 466) is not embedded.  Its call \<open>sink_right(Descriptor::left(node))\<close>
  names no template argument and none can be deduced, so the member template is ill-formed
  once instantiated, and with it \<open>basic_iterator::decrement\<close> and \<open>operator--\<close>, the only code
  that instantiates it: no program that builds executes them.
\<close>

definition swap_bimap :: "('l, 'r) bimap \<Rightarrow> ('l, 'r) bimap \<Rightarrow> ('l, 'r) bimap \<times> ('l, 'r) bimap" where
  \<comment> \<open>all five members are exchanged; the pair is (\<open>*this\<close>, \<open>other\<close>) afterwards\<close>
  "swap_bimap this other = (other, this)"

definition minimum ::
  "nat \<Rightarrow> ('n, 'v) descriptor \<Rightarrow> ptr \<Rightarrow> (addr \<Rightarrow> 'n option) \<Rightarrow> error + (ptr \<times> (addr \<Rightarrow> 'n option))" where
  "minimum fuel D node h = bind (sink_left fuel D h node) (\<lambda>m. splay fuel D m h)"

definition lower_bound ::
  "nat \<Rightarrow> ('n, 'v) descriptor \<Rightarrow> ptr \<Rightarrow> 'v \<Rightarrow> ('v \<Rightarrow> 'v \<Rightarrow> bool) \<Rightarrow> (addr \<Rightarrow> 'n option)
     \<Rightarrow> error + (ptr \<times> ptr \<times> (addr \<Rightarrow> 'n option))" where
  \<comment> \<open>returns the result and the new value of the reference parameter \<open>root\<close>\<close>
  "lower_bound fuel D root x compare h =
     bind (find_node fuel D root x compare h) (\<lambda>(root, h).
     if root \<noteq> None then
       bind (get_value D h root) (\<lambda>v.
       if \<not> compare v x then Inr (root, root, h)
       else
         bind (get_right D h root) (\<lambda>r.
         if r \<noteq> None then
           bind (minimum fuel D r h) (\<lambda>(root, h). Inr (root, root, h))
         else Inr (None, root, h)))
     else Inr (None, root, h))"

definition upper_bound ::
  "nat \<Rightarrow> ('n, 'v) descriptor \<Rightarrow> ptr \<Rightarrow> 'v \<Rightarrow> ('v \<Rightarrow> 'v \<Rightarrow> bool) \<Rightarrow> (addr \<Rightarrow> 'n option)
     \<Rightarrow> error + (ptr \<times> ptr \<times> (addr \<Rightarrow> 'n option))" where
  "upper_bound fuel D root x compare h =
     bind (find_node fuel D root x compare h) (\<lambda>(root, h).
     if root \<noteq> None then
       bind (get_value D h root) (\<lambda>v.
       if compare x v then Inr (root, root, h)
       else
         bind (get_right D h root) (\<lambda>r.
         if r \<noteq> None then
           bind (minimum fuel D r h) (\<lambda>(root, h). Inr (root, root, h))
         else Inr (None, root, h)))
     else Inr (None, root, h))"

definition at_element ::
  "nat \<Rightarrow> ('n, 'v) descriptor \<Rightarrow> ('n, 'w) descriptor \<Rightarrow> ptr \<Rightarrow> 'v \<Rightarrow> ('v \<Rightarrow> 'v \<Rightarrow> bool)
     \<Rightarrow> (addr \<Rightarrow> 'n option) \<Rightarrow> error + ('w \<times> ptr \<times> (addr \<Rightarrow> 'n option))" where
  "at_element fuel D1 D2 root key compare h =
     bind (find_node fuel D1 root key compare h) (\<lambda>(root, h).
     bind (orelse (Inr (root = None))
             (bind (get_value D1 h root) (\<lambda>v. Inr (\<not> v = key)))) (\<lambda>c.
     if c then Inl OutOfRange
     else bind (get_value D2 h root) (\<lambda>w. Inr (w, root, h))))"



section \<open>Cursors\<close>

text \<open>
  A cursor holds the address of its container and a node pointer; the null pointer is the
  end sentinel.  The tag \<open>main\<close> records which of the two instantiations
  (\<open>left_iterator\<close> or \<open>right_iterator\<close>) the cursor belongs to.
\<close>

datatype side = LeftSide | RightSide

record basic_iterator =
  main :: side
  tree :: nat
  node :: ptr

definition left_iterator :: "nat \<Rightarrow> ptr \<Rightarrow> basic_iterator" where
  "left_iterator this n = \<lparr>main = LeftSide, tree = this, node = n\<rparr>"

definition right_iterator :: "nat \<Rightarrow> ptr \<Rightarrow> basic_iterator" where
  "right_iterator this n = \<lparr>main = RightSide, tree = this, node = n\<rparr>"

definition increment ::
  "nat \<Rightarrow> ('n, 'v) descriptor \<Rightarrow> (addr \<Rightarrow> 'n option) \<Rightarrow> basic_iterator \<Rightarrow> error + basic_iterator" where
  "increment fuel D h it = bind (next_node fuel D h (node it)) (\<lambda>n. Inr (it\<lparr>node := n\<rparr>))"

definition iterator_eq :: "basic_iterator \<Rightarrow> basic_iterator \<Rightarrow> bool" where
  "iterator_eq it other = (tree it = tree other \<and> node it = node other)"

definition iterator_star ::
  "('n, 'v) descriptor \<Rightarrow> (addr \<Rightarrow> 'n option) \<Rightarrow> basic_iterator \<Rightarrow> error + 'v" where
  "iterator_star D h it = get_value D h (node it)"

definition flip :: "basic_iterator \<Rightarrow> basic_iterator" where
  "flip it = \<lparr>main = (case main it of LeftSide \<Rightarrow> RightSide | RightSide \<Rightarrow> LeftSide),
     tree = tree it, node = node it\<rparr>"

section \<open>The public operations\<close>

definition bimap_init :: "('l \<Rightarrow> 'l \<Rightarrow> bool) \<Rightarrow> ('r \<Rightarrow> 'r \<Rightarrow> bool) \<Rightarrow> ('l, 'r) bimap" where
  "bimap_init lc rc = \<lparr>left_root = None, right_root = None, left_compare = lc,
     right_compare = rc, elements_count = 0\<rparr>"

text \<open>
  The move constructor has no member initialisers: on entry the members of the new object
  hold whatever its storage held, which is the parameter \<open>this\<close>.  The result is the pair of
  the constructed object and the moved-from object.
\<close>

definition bimap_move :: "('l, 'r) bimap \<Rightarrow> ('l, 'r) bimap \<Rightarrow> ('l, 'r) bimap \<times> ('l, 'r) bimap" where
  "bimap_move this other =
     (let this = this\<lparr>left_root := left_root other\<rparr>;
          other = other\<lparr>left_root := None\<rparr>;
          this = this\<lparr>left_root := left_root other\<rparr>;
          other = other\<lparr>left_root := None\<rparr>;
          this = this\<lparr>left_compare := left_compare other\<rparr>;
          this = this\<lparr>right_compare := right_compare other\<rparr>;
          this = this\<lparr>elements_count := elements_count other\<rparr>;
          other = other\<lparr>elements_count := 0\<rparr>
      in (this, other))"

definition assign_bimap :: "('l, 'r) bimap \<Rightarrow> ('l, 'r) bimap \<Rightarrow> ('l, 'r) bimap \<times> ('l, 'r) bimap" where
  "assign_bimap this other = swap_bimap this other"

definition begin_left ::
  "nat \<Rightarrow> nat \<Rightarrow> ('l, 'r) bimap \<Rightarrow> ('l, 'r) heap \<Rightarrow> error + basic_iterator" where
  "begin_left fuel this b h =
     bind (sink_left fuel left_descriptor_t h (left_root b)) (\<lambda>n. Inr (left_iterator this n))"

definition end_left :: "nat \<Rightarrow> basic_iterator" where
  "end_left this = left_iterator this None"

definition begin_right ::
  "nat \<Rightarrow> nat \<Rightarrow> ('l, 'r) bimap \<Rightarrow> ('l, 'r) heap \<Rightarrow> error + basic_iterator" where
  "begin_right fuel this b h =
     bind (sink_left fuel right_descriptor_t h (right_root b)) (\<lambda>n. Inr (right_iterator this n))"

definition end_right :: "nat \<Rightarrow> basic_iterator" where
  "end_right this = right_iterator this None"

definition empty_bimap :: "('l, 'r) bimap \<Rightarrow> bool" where
  "empty_bimap b = (elements_count b = 0)"

definition size_bimap :: "('l, 'r) bimap \<Rightarrow> 64 word" where
  "size_bimap b = elements_count b"

definition find_left ::
  "nat \<Rightarrow> nat \<Rightarrow> 'l \<Rightarrow> ('l, 'r) bimap \<times> ('l, 'r) heap
     \<Rightarrow> error + (basic_iterator \<times> ('l, 'r) bimap \<times> ('l, 'r) heap)" where
  "find_left fuel this desired s =
     (case s of (b, h) \<Rightarrow>
     bind (find_element fuel left_descriptor_t (left_iterator this) (left_root b) desired
             (left_compare b) h) (\<lambda>(it, root, h).
     Inr (it, b\<lparr>left_root := root\<rparr>, h)))"

definition find_right ::
  "nat \<Rightarrow> nat \<Rightarrow> 'r \<Rightarrow> ('l, 'r) bimap \<times> ('l, 'r) heap
     \<Rightarrow> error + (basic_iterator \<times> ('l, 'r) bimap \<times> ('l, 'r) heap)" where
  "find_right fuel this desired s =
     (case s of (b, h) \<Rightarrow>
     bind (find_element fuel right_descriptor_t (right_iterator this) (right_root b) desired
             (right_compare b) h) (\<lambda>(it, root, h).
     Inr (it, b\<lparr>right_root := root\<rparr>, h)))"

definition insert_pair ::
  "nat \<Rightarrow> nat \<Rightarrow> addr \<Rightarrow> 'l \<Rightarrow> 'r \<Rightarrow> ('l, 'r) bimap \<times> ('l, 'r) heap
     \<Rightarrow> error + (basic_iterator \<times> ('l, 'r) bimap \<times> ('l, 'r) heap)" where
  "insert_pair fuel this a l r s =
     bind (insert_by_values fuel a l r s) (\<lambda>(n, b, h). Inr (left_iterator this n, b, h))"

definition erase_left_key ::
  "nat \<Rightarrow> 'l \<Rightarrow> ('l, 'r) bimap \<times> ('l, 'r) heap \<Rightarrow> error + (bool \<times> ('l, 'r) bimap \<times> ('l, 'r) heap)" where
  "erase_left_key fuel key s =
     (case s of (b, h) \<Rightarrow>
     let previous_elements_count = elements_count b in
     bind (erase_element fuel left_descriptor_t right_descriptor_t (left_root b) (right_root b)
             key (left_compare b) (right_compare b) (elements_count b) h) (\<lambda>(lr, rr, c, h).
     let b = b\<lparr>left_root := lr, right_root := rr, elements_count := c\<rparr> in
     Inr (elements_count b < previous_elements_count, b, h)))"

definition erase_right_key ::
  "nat \<Rightarrow> 'r \<Rightarrow> ('l, 'r) bimap \<times> ('l, 'r) heap \<Rightarrow> error + (bool \<times> ('l, 'r) bimap \<times> ('l, 'r) heap)" where
  "erase_right_key fuel key s =
     (case s of (b, h) \<Rightarrow>
     let previous_elements_count = elements_count b in
     bind (erase_element fuel right_descriptor_t left_descriptor_t (right_root b) (left_root b)
             key (right_compare b) (left_compare b) (elements_count b) h) (\<lambda>(rr, lr, c, h).
     let b = b\<lparr>left_root := lr, right_root := rr, elements_count := c\<rparr> in
     Inr (elements_count b < previous_elements_count, b, h)))"

definition erase_left_it ::
  "nat \<Rightarrow> nat \<Rightarrow> basic_iterator \<Rightarrow> ('l, 'r) bimap \<times> ('l, 'r) heap
     \<Rightarrow> error + (basic_iterator \<times> ('l, 'r) bimap \<times> ('l, 'r) heap)" where
  "erase_left_it fuel this it s =
     (case s of (b, h) \<Rightarrow>
     bind (splay fuel left_descriptor_t (node it) h) (\<lambda>(lr, h).
     let b = b\<lparr>left_root := lr\<rparr> in
     bind (splay fuel right_descriptor_t (node it) h) (\<lambda>(rr, h).
     let b = b\<lparr>right_root := rr\<rparr> in
     bind (erase_root fuel left_descriptor_t right_descriptor_t (left_root b) (right_root b)
             (left_compare b) (right_compare b) (elements_count b) h) (\<lambda>(lr, rr, c, h).
     let b = b\<lparr>left_root := lr, right_root := rr, elements_count := c\<rparr> in
     Inr (left_iterator this (left_root b), b, h)))))"

definition erase_right_it ::
  "nat \<Rightarrow> nat \<Rightarrow> basic_iterator \<Rightarrow> ('l, 'r) bimap \<times> ('l, 'r) heap
     \<Rightarrow> error + (basic_iterator \<times> ('l, 'r) bimap \<times> ('l, 'r) heap)" where
  "erase_right_it fuel this it s =
     (case s of (b, h) \<Rightarrow>
     bind (splay fuel left_descriptor_t (node it) h) (\<lambda>(lr, h).
     let b = b\<lparr>left_root := lr\<rparr> in
     bind (splay fuel right_descriptor_t (node it) h) (\<lambda>(rr, h).
     let b = b\<lparr>right_root := rr\<rparr> in
     bind (erase_root fuel right_descriptor_t left_descriptor_t (right_root b) (left_root b)
             (right_compare b) (left_compare b) (elements_count b) h) (\<lambda>(rr, lr, c, h).
     let b = b\<lparr>left_root := lr, right_root := rr, elements_count := c\<rparr> in
     Inr (right_iterator this (right_root b), b, h)))))"

fun erase_left_range_loop ::
  "nat \<Rightarrow> nat \<Rightarrow> nat \<Rightarrow> basic_iterator \<Rightarrow> basic_iterator \<Rightarrow> ('l, 'r) bimap \<times> ('l, 'r) heap
     \<Rightarrow> error + (basic_iterator \<times> ('l, 'r) bimap \<times> ('l, 'r) heap)" where
  "erase_left_range_loop 0 fuel this first last_it s = Inl OutOfFuel"
| "erase_left_range_loop (Suc k) fuel this first last_it s =
     (if \<not> iterator_eq first last_it then
        let copy = first in
        bind (increment fuel left_descriptor_t (snd s) first) (\<lambda>first.
        bind (erase_left_it fuel this copy s) (\<lambda>(_, s).
        erase_left_range_loop k fuel this first last_it s))
      else Inr (last_it, s))"

definition erase_left_range ::
  "nat \<Rightarrow> nat \<Rightarrow> basic_iterator \<Rightarrow> basic_iterator \<Rightarrow> ('l, 'r) bimap \<times> ('l, 'r) heap
     \<Rightarrow> error + (basic_iterator \<times> ('l, 'r) bimap \<times> ('l, 'r) heap)" where
  "erase_left_range fuel this first last_it s = erase_left_range_loop fuel fuel this first last_it s"

fun erase_right_range_loop ::
  "nat \<Rightarrow> nat \<Rightarrow> nat \<Rightarrow> basic_iterator \<Rightarrow> basic_iterator \<Rightarrow> ('l, 'r) bimap \<times> ('l, 'r) heap
     \<Rightarrow> error + (basic_iterator \<times> ('l, 'r) bimap \<times> ('l, 'r) heap)" where
  "erase_right_range_loop 0 fuel this first last_it s = Inl OutOfFuel"
| "erase_right_range_loop (Suc k) fuel this first last_it s =
     (if \<not> iterator_eq first last_it then
        let copy = first in
        bind (increment fuel right_descriptor_t (snd s) first) (\<lambda>first.
        bind (erase_right_it fuel this copy s) (\<lambda>(_, s).
        erase_right_range_loop k fuel this first last_it s))
      else Inr (last_it, s))"

definition erase_right_range ::
  "nat \<Rightarrow> nat \<Rightarrow> basic_iterator \<Rightarrow> basic_iterator \<Rightarrow> ('l, 'r) bimap \<times> ('l, 'r) heap
     \<Rightarrow> error + (basic_iterator \<times> ('l, 'r) bimap \<times> ('l, 'r) heap)" where
  "erase_right_range fuel this first last_it s = erase_right_range_loop fuel fuel this first last_it s"

definition lower_bound_left ::
  "nat \<Rightarrow> nat \<Rightarrow> 'l \<Rightarrow> ('l, 'r) bimap \<times> ('l, 'r) heap
     \<Rightarrow> error + (basic_iterator \<times> ('l, 'r) bimap \<times> ('l, 'r) heap)" where
  "lower_bound_left fuel this v s =
     (case s of (b, h) \<Rightarrow>
     bind (lower_bound fuel left_descriptor_t (left_root b) v (left_compare b) h)
       (\<lambda>(res, root, h). Inr (left_iterator this res, b\<lparr>left_root := root\<rparr>, h)))"

definition upper_bound_left ::
  "nat \<Rightarrow> nat \<Rightarrow> 'l \<Rightarrow> ('l, 'r) bimap \<times> ('l, 'r) heap
     \<Rightarrow> error + (basic_iterator \<times> ('l, 'r) bimap \<times> ('l, 'r) heap)" where
  "upper_bound_left fuel this v s =
     (case s of (b, h) \<Rightarrow>
     bind (upper_bound fuel left_descriptor_t (left_root b) v (left_compare b) h)
       (\<lambda>(res, root, h). Inr (left_iterator this res, b\<lparr>left_root := root\<rparr>, h)))"

definition lower_bound_right ::
  "nat \<Rightarrow> nat \<Rightarrow> 'r \<Rightarrow> ('l, 'r) bimap \<times> ('l, 'r) heap
     \<Rightarrow> error + (basic_iterator \<times> ('l, 'r) bimap \<times> ('l, 'r) heap)" where
  "lower_bound_right fuel this v s =
     (case s of (b, h) \<Rightarrow>
     bind (lower_bound fuel right_descriptor_t (right_root b) v (right_compare b) h)
       (\<lambda>(res, root, h). Inr (right_iterator this res, b\<lparr>right_root := root\<rparr>, h)))"

definition upper_bound_right ::
  "nat \<Rightarrow> nat \<Rightarrow> 'r \<Rightarrow> ('l, 'r) bimap \<times> ('l, 'r) heap
     \<Rightarrow> error + (basic_iterator \<times> ('l, 'r) bimap \<times> ('l, 'r) heap)" where
  "upper_bound_right fuel this v s =
     (case s of (b, h) \<Rightarrow>
     bind (upper_bound fuel right_descriptor_t (right_root b) v (right_compare b) h)
       (\<lambda>(res, root, h). Inr (right_iterator this res, b\<lparr>right_root := root\<rparr>, h)))"

definition at_left ::
  "nat \<Rightarrow> 'l \<Rightarrow> ('l, 'r) bimap \<times> ('l, 'r) heap \<Rightarrow> error + ('r \<times> ('l, 'r) bimap \<times> ('l, 'r) heap)" where
  "at_left fuel key s =
     (case s of (b, h) \<Rightarrow>
     bind (at_element fuel left_descriptor_t right_descriptor_t (left_root b) key
             (left_compare b) h) (\<lambda>(w, root, h). Inr (w, b\<lparr>left_root := root\<rparr>, h)))"

definition at_right ::
  "nat \<Rightarrow> 'r \<Rightarrow> ('l, 'r) bimap \<times> ('l, 'r) heap \<Rightarrow> error + ('l \<times> ('l, 'r) bimap \<times> ('l, 'r) heap)" where
  "at_right fuel key s =
     (case s of (b, h) \<Rightarrow>
     bind (at_element fuel right_descriptor_t left_descriptor_t (right_root b) key
             (right_compare b) h) (\<lambda>(w, root, h). Inr (w, b\<lparr>right_root := root\<rparr>, h)))"



text \<open>
  \<open>operator==\<close> on two containers at the addresses \<open>this\<close> and \<open>that\<close>, whose nodes live in
  the same store.
\<close>

fun equal_loop ::
  "nat \<Rightarrow> nat \<Rightarrow> ('l, 'r) heap \<Rightarrow> basic_iterator \<Rightarrow> basic_iterator \<Rightarrow> basic_iterator \<Rightarrow> error + bool" where
  "equal_loop 0 fuel h first second last_it = Inl OutOfFuel"
| "equal_loop (Suc k) fuel h first second last_it =
     (if \<not> iterator_eq first last_it then
        bind (iterator_star left_descriptor_t h first) (\<lambda>v1.
        bind (iterator_star left_descriptor_t h second) (\<lambda>v2.
        if v1 \<noteq> v2 then Inr False
        else
          bind (increment fuel left_descriptor_t h first) (\<lambda>first.
          bind (increment fuel left_descriptor_t h second) (\<lambda>second.
          equal_loop k fuel h first second last_it))))
      else Inr True)"

definition equal_bimap ::
  "nat \<Rightarrow> nat \<Rightarrow> ('l, 'r) bimap \<Rightarrow> nat \<Rightarrow> ('l, 'r) bimap \<Rightarrow> ('l, 'r) heap \<Rightarrow> error + bool" where
  "equal_bimap fuel this b that other h =
     (if size_bimap b \<noteq> size_bimap other then Inr False
      else
        bind (begin_left fuel this b h) (\<lambda>first.
        bind (begin_left fuel that other h) (\<lambda>second.
        equal_loop fuel fuel h first second (end_left this))))"

section \<open>Abstraction: shapes, contexts and the container invariant\<close>

text \<open>
  The laws a side descriptor obeys: writing the links of one side and reading them back
  (\<open>lens\<close>), and not touching the other side's links or either value (\<open>indep\<close>).  Both hold
  of \<open>left_descriptor_t\<close> and \<open>right_descriptor_t\<close>.
\<close>

definition lens :: "('n, 'v) descriptor \<Rightarrow> bool" where
  "lens D \<longleftrightarrow> (\<forall>t n. links D (set_links D t n) = t) \<and>
     (\<forall>t n. value_of D (set_links D t n) = value_of D n) \<and>
     (\<forall>t t' n. set_links D t (set_links D t' n) = set_links D t n) \<and>
     (\<forall>n. set_links D (links D n) n = n)"

definition indep :: "('n, 'v) descriptor \<Rightarrow> ('n, 'w) descriptor \<Rightarrow> bool" where
  "indep D D' \<longleftrightarrow> (\<forall>t n. links D' (set_links D t n) = links D' n \<and>
     value_of D' (set_links D t n) = value_of D' n)"

text \<open>
  The view of the store through one descriptor: the links of the node at an address, and
  its value on that side.  \<open>upd\<close> overwrites the links of a live node, \<open>only D S h h'\<close> says
  that \<open>h'\<close> differs from \<open>h\<close> at most in the \<open>D\<close>-links of the nodes in \<open>S\<close>.
\<close>

definition lnk :: "('n, 'v) descriptor \<Rightarrow> (addr \<Rightarrow> 'n option) \<Rightarrow> addr \<Rightarrow> tree_node_t option" where
  "lnk D h a = map_option (links D) (h a)"

definition key :: "('n, 'v) descriptor \<Rightarrow> (addr \<Rightarrow> 'n option) \<Rightarrow> addr \<Rightarrow> 'v" where
  "key D h a = value_of D (the (h a))"

definition upd :: "('n, 'v) descriptor \<Rightarrow> addr \<Rightarrow> tree_node_t \<Rightarrow> (addr \<Rightarrow> 'n option) \<Rightarrow> (addr \<Rightarrow> 'n option)" where
  "upd D a t h = (case h a of None \<Rightarrow> h | Some n \<Rightarrow> h(a \<mapsto> set_links D t n))"

definition only ::
  "('n, 'v) descriptor \<Rightarrow> addr set \<Rightarrow> (addr \<Rightarrow> 'n option) \<Rightarrow> (addr \<Rightarrow> 'n option) \<Rightarrow> bool" where
  "only D S h h' \<longleftrightarrow> (\<forall>a. (a \<notin> S \<longrightarrow> h' a = h a) \<and>
     (case h a of None \<Rightarrow> h' a = None | Some n \<Rightarrow> (\<exists>t. h' a = Some (set_links D t n))))"

text \<open>
  A \<open>shape\<close> is the tree a root pointer denotes, with addresses at the nodes;
  \<open>tree_at m par t\<close> says that the links \<open>m\<close> realise \<open>t\<close> below the parent pointer \<open>par\<close>.
\<close>

datatype shape = Tip | Br shape addr shape

fun inorder :: "shape \<Rightarrow> addr list" where
  "inorder Tip = []"
| "inorder (Br l a r) = inorder l @ a # inorder r"

fun rootp :: "shape \<Rightarrow> ptr" where
  "rootp Tip = None"
| "rootp (Br l a r) = Some a"

fun tree_at :: "(addr \<Rightarrow> tree_node_t option) \<Rightarrow> ptr \<Rightarrow> shape \<Rightarrow> bool" where
  "tree_at m par Tip = True"
| "tree_at m par (Br l a r) =
     (case m a of None \<Rightarrow> False
      | Some t \<Rightarrow> parent t = par \<and> left t = rootp l \<and> right t = rootp r \<and>
          tree_at m (Some a) l \<and> tree_at m (Some a) r)"

text \<open>
  The path from a subtree up to the root, as a list of frames, nearest first; \<open>zip_at m fs
  t\<close> says that the links realise the subtree \<open>t\<close> inside the context \<open>fs\<close> and that no
  address occurs twice; \<open>whole fs t\<close> is the in-order sequence of the whole tree.
\<close>

datatype frame = InLeft addr shape | InRight shape addr

fun hole_parent :: "frame list \<Rightarrow> ptr" where
  "hole_parent [] = None"
| "hole_parent (InLeft p s # fs) = Some p"
| "hole_parent (InRight s p # fs) = Some p"

fun ctx_at :: "(addr \<Rightarrow> tree_node_t option) \<Rightarrow> frame list \<Rightarrow> ptr \<Rightarrow> bool" where
  "ctx_at m [] c = True"
| "ctx_at m (InLeft p s # fs) c =
     (case m p of None \<Rightarrow> False
      | Some t \<Rightarrow> parent t = hole_parent fs \<and> left t = c \<and> right t = rootp s \<and>
          tree_at m (Some p) s \<and> ctx_at m fs (Some p))"
| "ctx_at m (InRight s p # fs) c =
     (case m p of None \<Rightarrow> False
      | Some t \<Rightarrow> parent t = hole_parent fs \<and> left t = rootp s \<and> right t = c \<and>
          tree_at m (Some p) s \<and> ctx_at m fs (Some p))"

fun ctx_before :: "frame list \<Rightarrow> addr list" where
  "ctx_before [] = []"
| "ctx_before (InLeft p s # fs) = ctx_before fs"
| "ctx_before (InRight s p # fs) = ctx_before fs @ inorder s @ [p]"

fun ctx_after :: "frame list \<Rightarrow> addr list" where
  "ctx_after [] = []"
| "ctx_after (InLeft p s # fs) = p # inorder s @ ctx_after fs"
| "ctx_after (InRight s p # fs) = ctx_after fs"

definition zip_at :: "(addr \<Rightarrow> tree_node_t option) \<Rightarrow> frame list \<Rightarrow> shape \<Rightarrow> bool" where
  "zip_at m fs t \<longleftrightarrow> tree_at m (hole_parent fs) t \<and> ctx_at m fs (rootp t) \<and>
     distinct (ctx_before fs @ inorder t @ ctx_after fs)"

definition whole :: "frame list \<Rightarrow> shape \<Rightarrow> addr list" where
  "whole fs t = ctx_before fs @ inorder t @ ctx_after fs"

definition reparent ::
  "('n, 'v) descriptor \<Rightarrow> ptr \<Rightarrow> ptr \<Rightarrow> (addr \<Rightarrow> 'n option) \<Rightarrow> (addr \<Rightarrow> 'n option)" where
  "reparent D c v h = (case c of None \<Rightarrow> h
     | Some a \<Rightarrow> (case lnk D h a of None \<Rightarrow> h | Some t \<Rightarrow> upd D a (t\<lparr>parent := v\<rparr>) h))"

text \<open>
  The node at which the descent of \<open>find_rec\<close> for the value \<open>x\<close> stops.
\<close>

fun lop :: "('v \<Rightarrow> 'v \<Rightarrow> bool) \<Rightarrow> (addr \<Rightarrow> 'v) \<Rightarrow> 'v \<Rightarrow> shape \<Rightarrow> addr" where
  "lop cmp k x Tip = 0"
| "lop cmp k x (Br l a r) =
     (if cmp x (k a) \<and> l \<noteq> Tip then lop cmp k x l
      else if cmp (k a) x \<and> r \<noteq> Tip then lop cmp k x r
      else a)"

text \<open>
  A comparator is a strict total order when it is irreflexive and transitive and any two
  distinct values are comparable: values equivalent under it are equal.  \<open>bst c k t\<close> says
  that the values \<open>k\<close> of the nodes of \<open>t\<close> increase under \<open>c\<close> along the in-order sequence.
\<close>

definition strict_total :: "('v \<Rightarrow> 'v \<Rightarrow> bool) \<Rightarrow> bool" where
  "strict_total c \<longleftrightarrow> (\<forall>a. \<not> c a a) \<and> (\<forall>a b d. c a b \<longrightarrow> c b d \<longrightarrow> c a d) \<and>
     (\<forall>a b. a \<noteq> b \<longrightarrow> c a b \<or> c b a)"

definition bst :: "('v \<Rightarrow> 'v \<Rightarrow> bool) \<Rightarrow> (addr \<Rightarrow> 'v) \<Rightarrow> shape \<Rightarrow> bool" where
  "bst c k t \<longleftrightarrow> sorted_wrt c (map k (inorder t))"

text \<open>
  What a search for \<open>x\<close> leaves at the root: every value in the left subtree is below \<open>x\<close>
  and every value in the right subtree above it.
\<close>

definition near :: "('v \<Rightarrow> 'v \<Rightarrow> bool) \<Rightarrow> (addr \<Rightarrow> 'v) \<Rightarrow> 'v \<Rightarrow> shape \<Rightarrow> bool" where
  "near c k x t = (case t of Tip \<Rightarrow> True
     | Br A a B \<Rightarrow> (\<forall>b \<in> set (inorder A). c (k b) x) \<and> (\<forall>b \<in> set (inorder B). c x (k b)))"

text \<open>
  The pairs a container holds, read off the nodes of its Left tree.  The invariant of a
  container \<open>b\<close> in the store \<open>h\<close>, for the shapes \<open>lt\<close> and \<open>rt\<close> of its two trees: the roots
  are those of the shapes, the links of each side realise its shape, both trees hold the
  same nodes, each is a search tree under its side's comparator, both comparators are
  strict total orders, and the count is the number of nodes.
\<close>

definition pairs :: "('l, 'r) heap \<Rightarrow> shape \<Rightarrow> ('l \<times> 'r) set" where
  "pairs h t = (\<lambda>a. (key left_descriptor_t h a, key right_descriptor_t h a)) ` set (inorder t)"

definition bimap_inv ::
  "('l, 'r) bimap \<times> ('l, 'r) heap \<Rightarrow> shape \<Rightarrow> shape \<Rightarrow> bool" where
  "bimap_inv s lt rt = (case s of (b, h) \<Rightarrow>
     left_root b = rootp lt \<and> right_root b = rootp rt \<and>
     zip_at (lnk left_descriptor_t h) [] lt \<and> zip_at (lnk right_descriptor_t h) [] rt \<and>
     set (inorder lt) = set (inorder rt) \<and>
     bst (left_compare b) (key left_descriptor_t h) lt \<and>
     bst (right_compare b) (key right_descriptor_t h) rt \<and>
     strict_total (left_compare b) \<and> strict_total (right_compare b) \<and>
     unat (elements_count b) = length (inorder lt))"

text \<open>
  The container and store that \<open>insert(1, 1)\<close>, \<open>insert(2, 2)\<close> leave under \<open>std::less\<close>, and
  the shape of both of its trees.
\<close>

definition two_bimap :: "(int, int) bimap" where
  "two_bimap = \<lparr>left_root = Some 1, right_root = Some 1, left_compare = (<),
     right_compare = (<), elements_count = 2\<rparr>"

definition two_heap :: "(int, int) heap" where
  "two_heap =
     [0 \<mapsto> \<lparr>left_value = 1, right_value = 1,
              left_tree_data = \<lparr>left = None, right = None, parent = Some 1\<rparr>,
              right_tree_data = \<lparr>left = None, right = None, parent = Some 1\<rparr>\<rparr>,
      1 \<mapsto> \<lparr>left_value = 2, right_value = 2,
              left_tree_data = \<lparr>left = Some 0, right = None, parent = None\<rparr>,
              right_tree_data = \<lparr>left = Some 0, right = None, parent = None\<rparr>\<rparr>]"

definition two_shape :: shape where
  "two_shape = Br (Br Tip 0 Tip) 1 Tip"

text \<open>
  The store that \<open>insert(0, 7)\<close>, \<open>insert(2, 0)\<close> leave under \<open>std::less\<close>; the container is
  \<open>two_bimap\<close> again, the Left tree has the shape \<open>two_shape\<close> and the Right tree
  \<open>zero_shape\<close>.
\<close>

definition zero_heap :: "(int, int) heap" where
  "zero_heap =
     [0 \<mapsto> \<lparr>left_value = 0, right_value = 7,
              left_tree_data = \<lparr>left = None, right = None, parent = Some 1\<rparr>,
              right_tree_data = \<lparr>left = None, right = None, parent = Some 1\<rparr>\<rparr>,
      1 \<mapsto> \<lparr>left_value = 2, right_value = 0,
              left_tree_data = \<lparr>left = Some 0, right = None, parent = None\<rparr>,
              right_tree_data = \<lparr>left = None, right = Some 0, parent = None\<rparr>\<rparr>]"

definition zero_shape :: shape where
  "zero_shape = Br Tip 1 (Br Tip 0 Tip)"

text \<open>
  The container and store that \<open>insert(5, 9)\<close>, \<open>insert(3, 4)\<close> leave under \<open>std::greater\<close> on
  both sides; both trees have the shape \<open>two_shape\<close>.
\<close>

definition down_bimap :: "(int, int) bimap" where
  "down_bimap = \<lparr>left_root = Some 1, right_root = Some 1, left_compare = (>),
     right_compare = (>), elements_count = 2\<rparr>"

definition down_heap :: "(int, int) heap" where
  "down_heap =
     [0 \<mapsto> \<lparr>left_value = 5, right_value = 9,
              left_tree_data = \<lparr>left = None, right = None, parent = Some 1\<rparr>,
              right_tree_data = \<lparr>left = None, right = None, parent = Some 1\<rparr>\<rparr>,
      1 \<mapsto> \<lparr>left_value = 3, right_value = 4,
              left_tree_data = \<lparr>left = Some 0, right = None, parent = None\<rparr>,
              right_tree_data = \<lparr>left = Some 0, right = None, parent = None\<rparr>\<rparr>]"

section \<open>Concrete runs\<close>

text \<open>The empty container of integer pairs under the default comparators, in an empty store.\<close>

definition empty_state :: "(int, int) bimap \<times> (int, int) heap" where
  "empty_state = (bimap_init (<) (<), Map.empty)"

text \<open>\<open>insert(1, 1)\<close> into the empty container at address 0; the node gets address 0.\<close>

definition one_pair :: "error + (basic_iterator \<times> (int, int) bimap \<times> (int, int) heap)" where
  "one_pair = insert_pair 3 0 0 1 1 empty_state"

text \<open>\<open>insert(1, 1)\<close>, then \<open>insert(2, 2)\<close>; the nodes get the addresses 0 and 1.\<close>

definition two_pairs :: "error + (basic_iterator \<times> (int, int) bimap \<times> (int, int) heap)" where
  "two_pairs = bind one_pair (\<lambda>(_, s). insert_pair 3 0 1 2 2 s)"

text \<open>
  A comparator that is a strict weak order but not a total one: \<open>[](int a, int b) { return
  a / 10 < b / 10; }\<close>.  Distinct keys of the same decade are equivalent under it.  On the
  non-negative keys used here the truncating division of the source agrees with \<open>div\<close>.
\<close>

definition tens_less :: "int \<Rightarrow> int \<Rightarrow> bool" where
  "tens_less a b = (a div 10 < b div 10)"

text \<open>
  The container with that comparator on both sides after \<open>insert(1, 10)\<close> and
  \<open>insert(2, 20)\<close>; the nodes get the addresses 0 and 1.
\<close>

definition tens_pairs :: "error + (basic_iterator \<times> (int, int) bimap \<times> (int, int) heap)" where
  "tens_pairs =
     bind (insert_pair 4 0 0 1 10 (bimap_init tens_less tens_less, Map.empty))
       (\<lambda>(_, s). insert_pair 4 0 1 2 20 s)"


section \<open>Refinement lemmas\<close>

lemma bind_simps [simp]: "bind (Inr x) f = f x" "bind (Inl e) f = Inl e"
  by (simp_all add: bind_def)

lemma lensD:
  assumes "lens D"
  shows "links D (set_links D t n) = t" "value_of D (set_links D t n) = value_of D n"
    "set_links D t (set_links D t' n) = set_links D t n" "set_links D (links D n) n = n"
  using assms by (auto simp: lens_def)

lemma lens_left: "lens left_descriptor_t"
  by (simp add: lens_def left_descriptor_t_def)

lemma lens_right: "lens right_descriptor_t"
  by (simp add: lens_def right_descriptor_t_def)

lemma indep_left_right: "indep left_descriptor_t right_descriptor_t"
  by (simp add: indep_def left_descriptor_t_def right_descriptor_t_def)

lemma indep_right_left: "indep right_descriptor_t left_descriptor_t"
  by (simp add: indep_def left_descriptor_t_def right_descriptor_t_def)

lemma lnk_upd:
  "lens D \<Longrightarrow> lnk D (upd D a t h) a' = (if a' = a \<and> lnk D h a \<noteq> None then Some t else lnk D h a')"
  by (auto simp: lnk_def upd_def lensD split: option.splits)

lemma key_upd: "lens D \<Longrightarrow> key D (upd D a t h) = key D h"
  by (auto simp: key_def upd_def lensD fun_eq_iff split: option.splits)

lemma only_refl: "lens D \<Longrightarrow> only D S h h"
  by (auto simp: only_def split: option.splits intro: lensD(4)[symmetric])

lemma only_trans: "lens D \<Longrightarrow> only D S h h1 \<Longrightarrow> only D S h1 h2 \<Longrightarrow> only D S h h2"
  unfolding only_def
  apply (intro allI)
  subgoal for a
    apply (erule_tac x=a in allE)+
    apply (auto split: option.splits simp: lensD)
    done
  done

lemma only_mono: "only D S h h' \<Longrightarrow> S \<subseteq> S' \<Longrightarrow> only D S' h h'"
  unfolding only_def by blast

lemma only_upd: "lens D \<Longrightarrow> a \<in> S \<Longrightarrow> only D S h (upd D a t h)"
  by (auto simp: only_def upd_def split: option.splits intro: lensD(4)[symmetric])

lemma only_upd': "lens D \<Longrightarrow> a \<in> S \<Longrightarrow> only D S h h1 \<Longrightarrow> only D S h (upd D a t h1)"
  using only_trans only_upd by blast

lemma only_key: "lens D \<Longrightarrow> only D S h h' \<Longrightarrow> key D h' = key D h"
  unfolding only_def key_def fun_eq_iff
  apply (intro allI)
  subgoal for a by (erule_tac x=a in allE) (auto split: option.splits simp: lensD)
  done

lemma only_dom: "only D S h h' \<Longrightarrow> (h' a = None) = (h a = None)"
  unfolding only_def by (erule_tac x=a in allE) (auto split: option.splits)

lemma only_frame: "only D S h h' \<Longrightarrow> a \<notin> S \<Longrightarrow> h' a = h a"
  unfolding only_def by blast

lemma only_other_lnk: "indep D D' \<Longrightarrow> only D S h h' \<Longrightarrow> lnk D' h' = lnk D' h"
  unfolding only_def lnk_def fun_eq_iff indep_def
  apply (intro allI)
  subgoal for a by (erule_tac x=a in allE) (auto split: option.splits)
  done

lemma only_other_key: "indep D D' \<Longrightarrow> only D S h h' \<Longrightarrow> key D' h' = key D' h"
  unfolding only_def key_def fun_eq_iff indep_def
  apply (intro allI)
  subgoal for a by (erule_tac x=a in allE) (auto split: option.splits)
  done

lemma get_left_lnk: "lnk D h a = Some t \<Longrightarrow> get_left D h (Some a) = Inr (left t)"
  by (auto simp: get_left_def deref_def lnk_def)

lemma get_right_lnk: "lnk D h a = Some t \<Longrightarrow> get_right D h (Some a) = Inr (right t)"
  by (auto simp: get_right_def deref_def lnk_def)

lemma get_parent_lnk: "lnk D h a = Some t \<Longrightarrow> get_parent D h (Some a) = Inr (parent t)"
  by (auto simp: get_parent_def deref_def lnk_def)

lemma get_value_key: "lnk D h a = Some t \<Longrightarrow> get_value D h (Some a) = Inr (key D h a)"
  by (auto simp: get_value_def deref_def lnk_def key_def)

lemma put_left_lnk:
  "lnk D h a = Some t \<Longrightarrow> put_left D (Some a) v h = Inr (upd D a (t\<lparr>left := v\<rparr>) h)"
  by (auto simp: put_left_def modify_def lnk_def upd_def)

lemma put_right_lnk:
  "lnk D h a = Some t \<Longrightarrow> put_right D (Some a) v h = Inr (upd D a (t\<lparr>right := v\<rparr>) h)"
  by (auto simp: put_right_def modify_def lnk_def upd_def)

lemma put_parent_lnk:
  "lnk D h a = Some t \<Longrightarrow> put_parent D (Some a) v h = Inr (upd D a (t\<lparr>parent := v\<rparr>) h)"
  by (auto simp: put_parent_def modify_def lnk_def upd_def)

lemma set_parent_lnk:
  "lnk D h a = Some t \<Longrightarrow> set_parent D (Some a) v h = Inr (upd D a (t\<lparr>parent := v\<rparr>) h)"
  "set_parent D None v h = Inr h"
  by (auto simp: set_parent_def put_parent_lnk)

lemma tree_at_cong:
  "(\<And>a. a \<in> set (inorder t) \<Longrightarrow> m' a = m a) \<Longrightarrow> tree_at m' par t = tree_at m par t"
  by (induction t arbitrary: par) (auto split: option.splits)

lemma ctx_nodes_cong:
  "(\<And>a. a \<in> set (ctx_before fs @ ctx_after fs) \<Longrightarrow> m' a = m a)
     \<Longrightarrow> ctx_at m' fs c = ctx_at m fs c"
proof (induction fs arbitrary: c)
  case Nil
  then show ?case by simp
next
  case (Cons f fs)
  show ?case
  proof (cases f)
    case (InLeft p s)
    have 1: "m' p = m p" using Cons.prems InLeft by simp
    have 2: "tree_at m' (Some p) s = tree_at m (Some p) s"
      by (rule tree_at_cong) (use Cons.prems InLeft in simp)
    have 3: "ctx_at m' fs (Some p) = ctx_at m fs (Some p)"
      by (rule Cons.IH) (use Cons.prems InLeft in auto)
    show ?thesis using 1 2 3 InLeft by (simp split: option.splits)
  next
    case (InRight s p)
    have 1: "m' p = m p" using Cons.prems InRight by simp
    have 2: "tree_at m' (Some p) s = tree_at m (Some p) s"
      by (rule tree_at_cong) (use Cons.prems InRight in simp)
    have 3: "ctx_at m' fs (Some p) = ctx_at m fs (Some p)"
      by (rule Cons.IH) (use Cons.prems InRight in auto)
    show ?thesis using 1 2 3 InRight by (simp split: option.splits)
  qed
qed

lemma tree_at_dom: "tree_at m par t \<Longrightarrow> a \<in> set (inorder t) \<Longrightarrow> m a \<noteq> None"
  by (induction t arbitrary: par) (auto split: option.splits)

lemma tree_at_reparent:
  "tree_at m par t \<Longrightarrow> distinct (inorder t)
     \<Longrightarrow> (\<And>a. a \<in> set (inorder t) \<Longrightarrow> rootp t \<noteq> Some a \<Longrightarrow> m' a = m a)
     \<Longrightarrow> (\<And>a u. rootp t = Some a \<Longrightarrow> m a = Some u \<Longrightarrow> m' a = Some (u\<lparr>parent := par'\<rparr>))
     \<Longrightarrow> tree_at m' par' t"
proof (cases t)
  case Tip
  then show ?thesis by simp
next
  case (Br l a r)
  assume t: "tree_at m par t" and d: "distinct (inorder t)"
    and same: "\<And>a. a \<in> set (inorder t) \<Longrightarrow> rootp t \<noteq> Some a \<Longrightarrow> m' a = m a"
    and root: "\<And>a u. rootp t = Some a \<Longrightarrow> m a = Some u \<Longrightarrow> m' a = Some (u\<lparr>parent := par'\<rparr>)"
  from t Br obtain u where u: "m a = Some u" "left u = rootp l" "right u = rootp r"
    "tree_at m (Some a) l" "tree_at m (Some a) r"
    by (auto split: option.splits)
  have m'a: "m' a = Some (u\<lparr>parent := par'\<rparr>)" using root Br u by simp
  have l: "tree_at m' (Some a) l = tree_at m (Some a) l"
    by (rule tree_at_cong) (use same d Br in auto)
  have r: "tree_at m' (Some a) r = tree_at m (Some a) r"
    by (rule tree_at_cong) (use same d Br in auto)
  show ?thesis using Br m'a u l r by simp
qed

lemma set_parent_reparent:
  "c = None \<or> (\<exists>a. c = Some a \<and> lnk D h a \<noteq> None) \<Longrightarrow> set_parent D c v h = Inr (reparent D c v h)"
  by (auto simp: reparent_def set_parent_lnk)

lemma lnk_reparent:
  "lens D \<Longrightarrow> lnk D (reparent D c v h) a =
     (if c = Some a then map_option (\<lambda>t. t\<lparr>parent := v\<rparr>) (lnk D h a) else lnk D h a)"
  by (auto simp: reparent_def lnk_upd split: option.splits)

lemma only_reparent:
  "lens D \<Longrightarrow> (\<And>a. c = Some a \<Longrightarrow> a \<in> S) \<Longrightarrow> only D S h h1 \<Longrightarrow> only D S h (reparent D c v h1)"
  by (auto simp: reparent_def only_upd' split: option.splits)

lemma rootp_in: "rootp t = Some a \<Longrightarrow> a \<in> set (inorder t)"
  by (cases t) auto

lemma hole_parent_in: "hole_parent fs = Some a \<Longrightarrow> a \<in> set (ctx_before fs @ ctx_after fs)"
  by (cases fs rule: hole_parent.cases) auto

lemma tree_at_root: "tree_at m par t \<Longrightarrow> rootp t = Some a \<Longrightarrow> \<exists>u. m a = Some u \<and> parent u = par"
  by (cases t) (auto split: option.splits)

lemma relink_child_ctx:
  assumes D: "lens D" and c: "ctx_at (lnk D h) fs (Some p)"
    and d: "distinct (ctx_before fs @ p # ctx_after fs)"
  shows "\<exists>h1. relink_child D (hole_parent fs) (Some p) (Some x) h = Inr h1 \<and>
           ctx_at (lnk D h1) fs (Some x) \<and> only D (set (ctx_before fs @ ctx_after fs)) h h1 \<and>
           (\<forall>a. hole_parent fs \<noteq> Some a \<longrightarrow> lnk D h1 a = lnk D h a)"
proof (cases fs rule: hole_parent.cases)
  case 1
  then show ?thesis using D by (simp add: relink_child_def only_refl)
next
  case (2 q s fs')
  from c 2 obtain tq where tq: "lnk D h q = Some tq" "parent tq = hole_parent fs'"
    "left tq = Some p" "right tq = rootp s" "tree_at (lnk D h) (Some q) s"
    "ctx_at (lnk D h) fs' (Some q)"
    by (auto split: option.splits)
  let ?h1 = "upd D q (tq\<lparr>left := Some x\<rparr>) h"
  have run: "relink_child D (hole_parent fs) (Some p) (Some x) h = Inr ?h1"
    using 2 tq by (simp add: relink_child_def get_left_lnk put_left_lnk)
  have q: "q \<notin> set (inorder s)" "q \<notin> set (ctx_before fs' @ ctx_after fs')"
    using d 2 by auto
  have t: "tree_at (lnk D ?h1) (Some q) s = tree_at (lnk D h) (Some q) s"
    by (rule tree_at_cong) (use q D tq in \<open>auto simp: lnk_upd\<close>)
  have c': "ctx_at (lnk D ?h1) fs' (Some q) = ctx_at (lnk D h) fs' (Some q)"
    by (rule ctx_nodes_cong) (use q D tq in \<open>auto simp: lnk_upd\<close>)
  have "ctx_at (lnk D ?h1) fs (Some x)"
    using 2 tq t c' D by (simp add: lnk_upd)
  moreover have "only D (set (ctx_before fs @ ctx_after fs)) h ?h1"
    using D by (rule only_upd) (use 2 in simp)
  moreover have "\<forall>a. hole_parent fs \<noteq> Some a \<longrightarrow> lnk D ?h1 a = lnk D h a"
    using 2 D by (simp add: lnk_upd)
  ultimately show ?thesis using run by blast
next
  case (3 s q fs')
  from c 3 obtain tq where tq: "lnk D h q = Some tq" "parent tq = hole_parent fs'"
    "left tq = rootp s" "right tq = Some p" "tree_at (lnk D h) (Some q) s"
    "ctx_at (lnk D h) fs' (Some q)"
    by (auto split: option.splits)
  have "p \<notin> set (inorder s)" using d 3 by auto
  then have np: "rootp s \<noteq> Some p" using rootp_in by blast
  let ?h1 = "upd D q (tq\<lparr>right := Some x\<rparr>) h"
  have run: "relink_child D (hole_parent fs) (Some p) (Some x) h = Inr ?h1"
    using 3 tq np by (simp add: relink_child_def get_left_lnk put_right_lnk)
  have q: "q \<notin> set (inorder s)" "q \<notin> set (ctx_before fs' @ ctx_after fs')"
    using d 3 by auto
  have t: "tree_at (lnk D ?h1) (Some q) s = tree_at (lnk D h) (Some q) s"
    by (rule tree_at_cong) (use q D tq in \<open>auto simp: lnk_upd\<close>)
  have c': "ctx_at (lnk D ?h1) fs' (Some q) = ctx_at (lnk D h) fs' (Some q)"
    by (rule ctx_nodes_cong) (use q D tq in \<open>auto simp: lnk_upd\<close>)
  have "ctx_at (lnk D ?h1) fs (Some x)"
    using 3 tq t c' D by (simp add: lnk_upd)
  moreover have "only D (set (ctx_before fs @ ctx_after fs)) h ?h1"
    using D by (rule only_upd) (use 3 in simp)
  moreover have "\<forall>a. hole_parent fs \<noteq> Some a \<longrightarrow> lnk D ?h1 a = lnk D h a"
    using 3 D by (simp add: lnk_upd)
  ultimately show ?thesis using run by blast
qed

lemma rotate_right_zip:
  assumes D: "lens D" and z: "zip_at (lnk D h) (InLeft p C # rest) (Br A x B)"
  shows "\<exists>h'. rotate_right D (Some x) (Some p) h = Inr (Some x, h') \<and>
           zip_at (lnk D h') rest (Br A x (Br B p C)) \<and>
           only D (set (whole (InLeft p C # rest) (Br A x B))) h h'"
proof -
  let ?S = "set (whole (InLeft p C # rest) (Br A x B))"
  let ?m = "lnk D h"
  from z have dist: "distinct (ctx_before rest @ (inorder A @ x # inorder B) @ p # inorder C @ ctx_after rest)"
    by (simp add: zip_at_def)
  from z obtain tx where tx: "?m x = Some tx" "parent tx = Some p" "left tx = rootp A"
    "right tx = rootp B" "tree_at ?m (Some x) A" "tree_at ?m (Some x) B"
    by (auto simp: zip_at_def split: option.splits)
  from z obtain tp where tp: "?m p = Some tp" "parent tp = hole_parent rest" "left tp = Some x"
    "right tp = rootp C" "tree_at ?m (Some p) C" "ctx_at ?m rest (Some p)"
    by (auto simp: zip_at_def split: option.splits)
  have dctx: "distinct (ctx_before rest @ p # ctx_after rest)" using dist by auto
  from relink_child_ctx[OF D tp(6) dctx, of x] obtain h1 where
    h1: "relink_child D (hole_parent rest) (Some p) (Some x) h = Inr h1"
      "ctx_at (lnk D h1) rest (Some x)" "only D (set (ctx_before rest @ ctx_after rest)) h h1"
      "\<And>a. hole_parent rest \<noteq> Some a \<Longrightarrow> lnk D h1 a = ?m a"
    by blast
  have o1: "only D ?S h h1"
    by (rule only_mono[OF h1(3)]) (auto simp: whole_def)
  have notq: "\<And>a. a \<in> set (inorder A @ x # inorder B @ p # inorder C) \<Longrightarrow> hole_parent rest \<noteq> Some a"
    using dist hole_parent_in[of rest] by fastforce
  have same1: "\<And>a. a \<in> set (inorder A @ x # inorder B @ p # inorder C) \<Longrightarrow> lnk D h1 a = ?m a"
    using h1(4) notq by blast
  have xp: "x \<noteq> p" using dist by auto
  have rB: "rootp B \<noteq> Some x" "rootp B \<noteq> Some p"
    using dist rootp_in[of B] by auto
  have Bdom: "rootp B = None \<or> (\<exists>b. rootp B = Some b \<and> ?m b \<noteq> None)"
    using tree_at_root[OF tx(6)] by (cases "rootp B") auto
  define h2 where "h2 = upd D x (tx\<lparr>parent := hole_parent rest\<rparr>) h1"
  define h3 where "h3 = upd D p (tp\<lparr>parent := Some x\<rparr>) h2"
  define h4 where "h4 = upd D p (tp\<lparr>parent := Some x, left := rootp B\<rparr>) h3"
  define h5 where "h5 = reparent D (rootp B) (Some p) h4"
  define h6 where "h6 = upd D x (tx\<lparr>parent := hole_parent rest, right := Some p\<rparr>) h5"
  have m1: "lnk D h1 x = Some tx" "lnk D h1 p = Some tp"
    using same1 tx tp by auto
  have m2: "lnk D h2 x = Some (tx\<lparr>parent := hole_parent rest\<rparr>)" "lnk D h2 p = Some tp"
    using m1 xp D by (auto simp: h2_def lnk_upd)
  have m3: "lnk D h3 x = Some (tx\<lparr>parent := hole_parent rest\<rparr>)"
    "lnk D h3 p = Some (tp\<lparr>parent := Some x\<rparr>)"
    using m2 xp D by (auto simp: h3_def lnk_upd)
  have m4: "lnk D h4 x = Some (tx\<lparr>parent := hole_parent rest\<rparr>)"
    "lnk D h4 p = Some (tp\<lparr>parent := Some x, left := rootp B\<rparr>)"
    using m3 xp D by (auto simp: h4_def lnk_upd)
  have other4: "\<And>a. a \<noteq> x \<Longrightarrow> a \<noteq> p \<Longrightarrow> lnk D h4 a = lnk D h1 a"
    using D by (simp add: h4_def h3_def h2_def lnk_upd)
  have Bdom4: "rootp B = None \<or> (\<exists>b. rootp B = Some b \<and> lnk D h4 b \<noteq> None)"
  proof (cases "rootp B")
    case None then show ?thesis by simp
  next
    case (Some b)
    then have "b \<noteq> x" "b \<noteq> p" "b \<in> set (inorder B)" using rB rootp_in by auto
    then have "lnk D h4 b = ?m b" using other4 same1 by simp
    then show ?thesis using Bdom Some by auto
  qed
  have m5: "lnk D h5 x = Some (tx\<lparr>parent := hole_parent rest\<rparr>)"
    "lnk D h5 p = Some (tp\<lparr>parent := Some x, left := rootp B\<rparr>)"
    using m4 rB D by (auto simp: h5_def lnk_reparent)
  have run: "rotate_right D (Some x) (Some p) h = Inr (Some x, h6)"
    unfolding rotate_right_def
    using tp tx h1(1) m1 m2 m3 m4 m5 Bdom4
    by (simp add: get_parent_lnk get_right_lnk put_parent_lnk put_left_lnk put_right_lnk
        set_parent_reparent h2_def[symmetric] h3_def[symmetric] h4_def[symmetric]
        h5_def[symmetric] h6_def[symmetric])
  have m6x: "lnk D h6 x = Some (tx\<lparr>parent := hole_parent rest, right := Some p\<rparr>)"
    using m5 D by (simp add: h6_def lnk_upd)
  have m6p: "lnk D h6 p = Some (tp\<lparr>parent := Some x, left := rootp B\<rparr>)"
    using m5 xp D by (simp add: h6_def lnk_upd)
  have m6o: "\<And>a. a \<noteq> x \<Longrightarrow> a \<noteq> p \<Longrightarrow> rootp B \<noteq> Some a \<Longrightarrow> lnk D h6 a = lnk D h1 a"
    using D other4 by (simp add: h6_def h5_def lnk_upd lnk_reparent)
  have m6b: "\<And>b u. rootp B = Some b \<Longrightarrow> ?m b = Some u \<Longrightarrow> lnk D h6 b = Some (u\<lparr>parent := Some p\<rparr>)"
  proof -
    fix b u assume b: "rootp B = Some b" "?m b = Some u"
    then have "b \<noteq> x" "b \<noteq> p" "b \<in> set (inorder B)" using rB rootp_in by auto
    then have "lnk D h4 b = Some u" using other4 same1 b by simp
    then show "lnk D h6 b = Some (u\<lparr>parent := Some p\<rparr>)"
      using D b \<open>b \<noteq> x\<close> by (simp add: h6_def h5_def lnk_upd lnk_reparent)
  qed
  have tA: "tree_at (lnk D h6) (Some x) A"
  proof -
    have "tree_at (lnk D h6) (Some x) A = tree_at ?m (Some x) A"
    proof (rule tree_at_cong)
      fix a assume a: "a \<in> set (inorder A)"
      then have "a \<noteq> x" "a \<noteq> p" "rootp B \<noteq> Some a" using dist rootp_in[of B a] by auto
      then show "lnk D h6 a = ?m a" using m6o same1 a by simp
    qed
    then show ?thesis using tx by simp
  qed
  have tC: "tree_at (lnk D h6) (Some p) C"
  proof -
    have "tree_at (lnk D h6) (Some p) C = tree_at ?m (Some p) C"
    proof (rule tree_at_cong)
      fix a assume a: "a \<in> set (inorder C)"
      then have "a \<noteq> x" "a \<noteq> p" "rootp B \<noteq> Some a" using dist rootp_in[of B a] by auto
      then show "lnk D h6 a = ?m a" using m6o same1 a by simp
    qed
    then show ?thesis using tp by simp
  qed
  have tB: "tree_at (lnk D h6) (Some p) B"
  proof (rule tree_at_reparent[OF tx(6)])
    show "distinct (inorder B)" using dist by auto
  next
    fix a assume a: "a \<in> set (inorder B)" "rootp B \<noteq> Some a"
    then have "a \<noteq> x" "a \<noteq> p" using dist by auto
    then show "lnk D h6 a = ?m a" using m6o same1 a by simp
  next
    fix a u assume "rootp B = Some a" "?m a = Some u"
    then show "lnk D h6 a = Some (u\<lparr>parent := Some p\<rparr>)" by (rule m6b)
  qed
  have cx: "ctx_at (lnk D h6) rest (Some x)"
  proof -
    have "ctx_at (lnk D h6) rest (Some x) = ctx_at (lnk D h1) rest (Some x)"
    proof (rule ctx_nodes_cong)
      fix a assume a: "a \<in> set (ctx_before rest @ ctx_after rest)"
      then have "a \<noteq> x" "a \<noteq> p" "rootp B \<noteq> Some a" using dist rootp_in[of B a] by auto
      then show "lnk D h6 a = lnk D h1 a" using m6o by simp
    qed
    then show ?thesis using h1(2) by simp
  qed
  have "tree_at (lnk D h6) (hole_parent rest) (Br A x (Br B p C))"
    using m6x m6p tA tB tC tx tp by simp
  then have zip: "zip_at (lnk D h6) rest (Br A x (Br B p C))"
    using cx dist by (simp add: zip_at_def)
  have xS: "x \<in> ?S" "p \<in> ?S" by (auto simp: whole_def)
  have o2: "only D ?S h h2" unfolding h2_def by (rule only_upd'[OF D xS(1) o1])
  have o3: "only D ?S h h3" unfolding h3_def by (rule only_upd'[OF D xS(2) o2])
  have o4: "only D ?S h h4" unfolding h4_def by (rule only_upd'[OF D xS(2) o3])
  have o5: "only D ?S h h5" unfolding h5_def
    by (rule only_reparent[OF D _ o4]) (use rootp_in in \<open>fastforce simp: whole_def\<close>)
  have "only D ?S h h6" unfolding h6_def by (rule only_upd'[OF D xS(1) o5])
  then show ?thesis using run zip by blast
qed

lemma rotate_left_zip:
  assumes D: "lens D" and z: "zip_at (lnk D h) (InRight C p # rest) (Br A x B)"
  shows "\<exists>h'. rotate_left D (Some x) (Some p) h = Inr (Some x, h') \<and>
           zip_at (lnk D h') rest (Br (Br C p A) x B) \<and>
           only D (set (whole (InRight C p # rest) (Br A x B))) h h'"
proof -
  let ?S = "set (whole (InRight C p # rest) (Br A x B))"
  let ?m = "lnk D h"
  from z have dist: "distinct (ctx_before rest @ inorder C @ p # (inorder A @ x # inorder B) @ ctx_after rest)"
    by (simp add: zip_at_def)
  from z obtain tx where tx: "?m x = Some tx" "parent tx = Some p" "left tx = rootp A"
    "right tx = rootp B" "tree_at ?m (Some x) A" "tree_at ?m (Some x) B"
    by (auto simp: zip_at_def split: option.splits)
  from z obtain tp where tp: "?m p = Some tp" "parent tp = hole_parent rest" "left tp = rootp C"
    "right tp = Some x" "tree_at ?m (Some p) C" "ctx_at ?m rest (Some p)"
    by (auto simp: zip_at_def split: option.splits)
  have dctx: "distinct (ctx_before rest @ p # ctx_after rest)" using dist by auto
  from relink_child_ctx[OF D tp(6) dctx, of x] obtain h1 where
    h1: "relink_child D (hole_parent rest) (Some p) (Some x) h = Inr h1"
      "ctx_at (lnk D h1) rest (Some x)" "only D (set (ctx_before rest @ ctx_after rest)) h h1"
      "\<And>a. hole_parent rest \<noteq> Some a \<Longrightarrow> lnk D h1 a = ?m a"
    by blast
  have o1: "only D ?S h h1"
    by (rule only_mono[OF h1(3)]) (auto simp: whole_def)
  have notq: "\<And>a. a \<in> set (inorder A @ x # inorder B @ p # inorder C) \<Longrightarrow> hole_parent rest \<noteq> Some a"
    using dist hole_parent_in[of rest] by fastforce
  have same1: "\<And>a. a \<in> set (inorder A @ x # inorder B @ p # inorder C) \<Longrightarrow> lnk D h1 a = ?m a"
    using h1(4) notq by blast
  have xp: "x \<noteq> p" using dist by auto
  have rA: "rootp A \<noteq> Some x" "rootp A \<noteq> Some p"
    using dist rootp_in[of A] by auto
  have Adom: "rootp A = None \<or> (\<exists>b. rootp A = Some b \<and> ?m b \<noteq> None)"
    using tree_at_root[OF tx(5)] by (cases "rootp A") auto
  define h2 where "h2 = upd D x (tx\<lparr>parent := hole_parent rest\<rparr>) h1"
  define h3 where "h3 = upd D p (tp\<lparr>parent := Some x\<rparr>) h2"
  define h4 where "h4 = upd D p (tp\<lparr>parent := Some x, right := rootp A\<rparr>) h3"
  define h5 where "h5 = reparent D (rootp A) (Some p) h4"
  define h6 where "h6 = upd D x (tx\<lparr>parent := hole_parent rest, left := Some p\<rparr>) h5"
  have m1: "lnk D h1 x = Some tx" "lnk D h1 p = Some tp"
    using same1 tx tp by auto
  have m2: "lnk D h2 x = Some (tx\<lparr>parent := hole_parent rest\<rparr>)" "lnk D h2 p = Some tp"
    using m1 xp D by (auto simp: h2_def lnk_upd)
  have m3: "lnk D h3 x = Some (tx\<lparr>parent := hole_parent rest\<rparr>)"
    "lnk D h3 p = Some (tp\<lparr>parent := Some x\<rparr>)"
    using m2 xp D by (auto simp: h3_def lnk_upd)
  have m4: "lnk D h4 x = Some (tx\<lparr>parent := hole_parent rest\<rparr>)"
    "lnk D h4 p = Some (tp\<lparr>parent := Some x, right := rootp A\<rparr>)"
    using m3 xp D by (auto simp: h4_def lnk_upd)
  have other4: "\<And>a. a \<noteq> x \<Longrightarrow> a \<noteq> p \<Longrightarrow> lnk D h4 a = lnk D h1 a"
    using D by (simp add: h4_def h3_def h2_def lnk_upd)
  have Adom4: "rootp A = None \<or> (\<exists>b. rootp A = Some b \<and> lnk D h4 b \<noteq> None)"
  proof (cases "rootp A")
    case None then show ?thesis by simp
  next
    case (Some b)
    then have "b \<noteq> x" "b \<noteq> p" "b \<in> set (inorder A)" using rA rootp_in by auto
    then have "lnk D h4 b = ?m b" using other4 same1 by simp
    then show ?thesis using Adom Some by auto
  qed
  have m5: "lnk D h5 x = Some (tx\<lparr>parent := hole_parent rest\<rparr>)"
    "lnk D h5 p = Some (tp\<lparr>parent := Some x, right := rootp A\<rparr>)"
    using m4 rA D by (auto simp: h5_def lnk_reparent)
  have run: "rotate_left D (Some x) (Some p) h = Inr (Some x, h6)"
    unfolding rotate_left_def
    using tp tx h1(1) m1 m2 m3 m4 m5 Adom4
    by (simp add: get_parent_lnk get_left_lnk put_parent_lnk put_left_lnk put_right_lnk
        set_parent_reparent h2_def[symmetric] h3_def[symmetric] h4_def[symmetric]
        h5_def[symmetric] h6_def[symmetric])
  have m6x: "lnk D h6 x = Some (tx\<lparr>parent := hole_parent rest, left := Some p\<rparr>)"
    using m5 D by (simp add: h6_def lnk_upd)
  have m6p: "lnk D h6 p = Some (tp\<lparr>parent := Some x, right := rootp A\<rparr>)"
    using m5 xp D by (simp add: h6_def lnk_upd)
  have m6o: "\<And>a. a \<noteq> x \<Longrightarrow> a \<noteq> p \<Longrightarrow> rootp A \<noteq> Some a \<Longrightarrow> lnk D h6 a = lnk D h1 a"
    using D other4 by (simp add: h6_def h5_def lnk_upd lnk_reparent)
  have m6b: "\<And>b u. rootp A = Some b \<Longrightarrow> ?m b = Some u \<Longrightarrow> lnk D h6 b = Some (u\<lparr>parent := Some p\<rparr>)"
  proof -
    fix b u assume b: "rootp A = Some b" "?m b = Some u"
    then have "b \<noteq> x" "b \<noteq> p" "b \<in> set (inorder A)" using rA rootp_in by auto
    then have "lnk D h4 b = Some u" using other4 same1 b by simp
    then show "lnk D h6 b = Some (u\<lparr>parent := Some p\<rparr>)"
      using D b \<open>b \<noteq> x\<close> by (simp add: h6_def h5_def lnk_upd lnk_reparent)
  qed
  have tB: "tree_at (lnk D h6) (Some x) B"
  proof -
    have "tree_at (lnk D h6) (Some x) B = tree_at ?m (Some x) B"
    proof (rule tree_at_cong)
      fix a assume a: "a \<in> set (inorder B)"
      then have "a \<noteq> x" "a \<noteq> p" "rootp A \<noteq> Some a" using dist rootp_in[of A a] by auto
      then show "lnk D h6 a = ?m a" using m6o same1 a by simp
    qed
    then show ?thesis using tx by simp
  qed
  have tC: "tree_at (lnk D h6) (Some p) C"
  proof -
    have "tree_at (lnk D h6) (Some p) C = tree_at ?m (Some p) C"
    proof (rule tree_at_cong)
      fix a assume a: "a \<in> set (inorder C)"
      then have "a \<noteq> x" "a \<noteq> p" "rootp A \<noteq> Some a" using dist rootp_in[of A a] by auto
      then show "lnk D h6 a = ?m a" using m6o same1 a by simp
    qed
    then show ?thesis using tp by simp
  qed
  have tA: "tree_at (lnk D h6) (Some p) A"
  proof (rule tree_at_reparent[OF tx(5)])
    show "distinct (inorder A)" using dist by auto
  next
    fix a assume a: "a \<in> set (inorder A)" "rootp A \<noteq> Some a"
    then have "a \<noteq> x" "a \<noteq> p" using dist by auto
    then show "lnk D h6 a = ?m a" using m6o same1 a by simp
  next
    fix a u assume "rootp A = Some a" "?m a = Some u"
    then show "lnk D h6 a = Some (u\<lparr>parent := Some p\<rparr>)" by (rule m6b)
  qed
  have cx: "ctx_at (lnk D h6) rest (Some x)"
  proof -
    have "ctx_at (lnk D h6) rest (Some x) = ctx_at (lnk D h1) rest (Some x)"
    proof (rule ctx_nodes_cong)
      fix a assume a: "a \<in> set (ctx_before rest @ ctx_after rest)"
      then have "a \<noteq> x" "a \<noteq> p" "rootp A \<noteq> Some a" using dist rootp_in[of A a] by auto
      then show "lnk D h6 a = lnk D h1 a" using m6o by simp
    qed
    then show ?thesis using h1(2) by simp
  qed
  have "tree_at (lnk D h6) (hole_parent rest) (Br (Br C p A) x B)"
    using m6x m6p tA tB tC tx tp by simp
  then have zip: "zip_at (lnk D h6) rest (Br (Br C p A) x B)"
    using cx dist by (simp add: zip_at_def)
  have xS: "x \<in> ?S" "p \<in> ?S" by (auto simp: whole_def)
  have o2: "only D ?S h h2" unfolding h2_def by (rule only_upd'[OF D xS(1) o1])
  have o3: "only D ?S h h3" unfolding h3_def by (rule only_upd'[OF D xS(2) o2])
  have o4: "only D ?S h h4" unfolding h4_def by (rule only_upd'[OF D xS(2) o3])
  have o5: "only D ?S h h5" unfolding h5_def
    by (rule only_reparent[OF D _ o4]) (use rootp_in in \<open>fastforce simp: whole_def\<close>)
  have "only D ?S h h6" unfolding h6_def by (rule only_upd'[OF D xS(1) o5])
  then show ?thesis using run zip by blast
qed

lemma zip_up_left: "zip_at m (InLeft p C # fs) t = zip_at m fs (Br t p C)"
  by (auto simp: zip_at_def split: option.splits)

lemma zip_up_right: "zip_at m (InRight C p # fs) t = zip_at m fs (Br C p t)"
  by (auto simp: zip_at_def split: option.splits)

lemma zip_frame_left:
  assumes "zip_at m (InLeft p C # fs) t"
  shows "\<exists>tp. m p = Some tp \<and> parent tp = hole_parent fs \<and> left tp = rootp t \<and>
           right tp = rootp C \<and> (\<forall>a \<in> set (inorder t). rootp C \<noteq> Some a)"
proof -
  have "\<And>a. a \<in> set (inorder t) \<Longrightarrow> a \<notin> set (inorder C)"
    using assms by (auto simp: zip_at_def)
  then have "\<forall>a \<in> set (inorder t). rootp C \<noteq> Some a" using rootp_in by blast
  then show ?thesis using assms by (auto simp: zip_at_def split: option.splits)
qed

lemma zip_frame_right:
  assumes "zip_at m (InRight C p # fs) t"
  shows "\<exists>tp. m p = Some tp \<and> parent tp = hole_parent fs \<and> left tp = rootp C \<and>
           right tp = rootp t \<and> (\<forall>a \<in> set (inorder t). rootp C \<noteq> Some a)"
proof -
  have "\<And>a. a \<in> set (inorder t) \<Longrightarrow> a \<notin> set (inorder C)"
    using assms by (auto simp: zip_at_def)
  then have "\<forall>a \<in> set (inorder t). rootp C \<noteq> Some a" using rootp_in by blast
  then show ?thesis using assms by (auto simp: zip_at_def split: option.splits)
qed

lemmas step_simps = get_parent_lnk get_left_lnk get_right_lnk andalso_def ptr_is_def

lemma splay_step_zip:
  assumes D: "lens D" and z: "zip_at (lnk D h) fs (Br A x B)" and ne: "fs \<noteq> []"
  shows "\<exists>h' A' B' fs'. splay_step D (Some x) (hole_parent fs) h = Inr (Some x, h') \<and>
           zip_at (lnk D h') fs' (Br A' x B') \<and> length fs' < length fs \<and>
           whole fs' (Br A' x B') = whole fs (Br A x B) \<and>
           only D (set (whole fs (Br A x B))) h h'"
proof -
  let ?m = "lnk D h"
  consider
      (zigl) p C where "fs = [InLeft p C]"
    | (zigr) p C where "fs = [InRight C p]"
    | (ll) p C g E rest where "fs = InLeft p C # InLeft g E # rest"
    | (rr) p C g E rest where "fs = InRight C p # InRight E g # rest"
    | (rl) p C g E rest where "fs = InRight C p # InLeft g E # rest"
    | (lr) p C g E rest where "fs = InLeft p C # InRight E g # rest"
  proof (cases fs)
    case Nil
    then show ?thesis using ne by simp
  next
    case (Cons f1 fs1)
    show ?thesis
    proof (cases fs1)
      case Nil
      then show ?thesis using Cons zigl zigr by (cases f1) auto
    next
      case (Cons f2 rest)
      then show ?thesis using \<open>fs = f1 # fs1\<close> ll rr rl lr
        by (cases f1; cases f2) auto
    qed
  qed
  then show ?thesis
  proof cases
    case zigl
    from zip_frame_left[OF z[unfolded zigl]] obtain tp where
      tp: "?m p = Some tp" "parent tp = None" "right tp = rootp C" "rootp C \<noteq> Some x"
      by auto
    from rotate_right_zip[OF D z[unfolded zigl]] obtain h' where
      h': "rotate_right D (Some x) (Some p) h = Inr (Some x, h')"
        "zip_at (lnk D h') [] (Br A x (Br B p C))"
        "only D (set (whole fs (Br A x B))) h h'" unfolding zigl by blast
    have "splay_step D (Some x) (hole_parent fs) h = Inr (Some x, h')"
      using tp h'(1) zigl by (simp add: splay_step_def step_simps)
    moreover have "whole [] (Br A x (Br B p C)) = whole fs (Br A x B)"
      using zigl by (simp add: whole_def)
    ultimately show ?thesis using h' zigl
      by (intro exI[of _ h'] exI[of _ A] exI[of _ "Br B p C"] exI[of _ "[]"]) simp
  next
    case zigr
    from zip_frame_right[OF z[unfolded zigr]] obtain tp where
      tp: "?m p = Some tp" "parent tp = None" "right tp = Some x"
      by auto
    from rotate_left_zip[OF D z[unfolded zigr]] obtain h' where
      h': "rotate_left D (Some x) (Some p) h = Inr (Some x, h')"
        "zip_at (lnk D h') [] (Br (Br C p A) x B)"
        "only D (set (whole fs (Br A x B))) h h'" unfolding zigr by blast
    have "splay_step D (Some x) (hole_parent fs) h = Inr (Some x, h')"
      using tp h'(1) zigr by (simp add: splay_step_def step_simps)
    moreover have "whole [] (Br (Br C p A) x B) = whole fs (Br A x B)"
      using zigr by (simp add: whole_def)
    ultimately show ?thesis using h' zigr
      by (intro exI[of _ h'] exI[of _ "Br C p A"] exI[of _ B] exI[of _ "[]"]) simp
  next
    case ll
    note z1 = z[unfolded ll]
    from zip_frame_left[OF z1] obtain tp where
      tp: "?m p = Some tp" "parent tp = Some g" "left tp = Some x" by auto
    note z2 = zip_up_left[THEN iffD1, OF z1]
    from zip_frame_left[OF z2] obtain tg where
      tg: "?m g = Some tg" "left tg = Some p" by auto
    from rotate_right_zip[OF D z2] obtain h1 where
      h1: "rotate_right D (Some p) (Some g) h = Inr (Some p, h1)"
        "zip_at (lnk D h1) rest (Br (Br A x B) p (Br C g E))" "only D (set (whole fs (Br A x B))) h h1"
      unfolding ll by (fastforce simp: whole_def)
    from rotate_right_zip[OF D zip_up_left[THEN iffD2, OF h1(2)]] obtain h2 where
      h2: "rotate_right D (Some x) (Some p) h1 = Inr (Some x, h2)"
        "zip_at (lnk D h2) rest (Br A x (Br B p (Br C g E)))" "only D (set (whole fs (Br A x B))) h1 h2"
      unfolding ll by (fastforce simp: whole_def)
    have "splay_step D (Some x) (hole_parent fs) h = Inr (Some x, h2)"
      using tp tg h1(1) h2(1) ll by (simp add: splay_step_def step_simps)
    moreover have "whole rest (Br A x (Br B p (Br C g E))) = whole fs (Br A x B)"
      using ll by (simp add: whole_def)
    moreover have "only D (set (whole fs (Br A x B))) h h2" using only_trans[OF D h1(3) h2(3)] .
    ultimately show ?thesis using h2(2) ll
      by (intro exI[of _ h2] exI[of _ A] exI[of _ "Br B p (Br C g E)"] exI[of _ rest]) simp
  next
    case rr
    note z1 = z[unfolded rr]
    from zip_frame_right[OF z1] obtain tp where
      tp: "?m p = Some tp" "parent tp = Some g" "right tp = Some x" by auto
    note z2 = zip_up_right[THEN iffD1, OF z1]
    from zip_frame_right[OF z2] obtain tg where
      tg: "?m g = Some tg" "left tg = rootp E" "right tg = Some p" "rootp E \<noteq> Some p" by auto
    from rotate_left_zip[OF D z2] obtain h1 where
      h1: "rotate_left D (Some p) (Some g) h = Inr (Some p, h1)"
        "zip_at (lnk D h1) rest (Br (Br E g C) p (Br A x B))" "only D (set (whole fs (Br A x B))) h h1"
      unfolding rr by (fastforce simp: whole_def)
    from rotate_left_zip[OF D zip_up_right[THEN iffD2, OF h1(2)]] obtain h2 where
      h2: "rotate_left D (Some x) (Some p) h1 = Inr (Some x, h2)"
        "zip_at (lnk D h2) rest (Br (Br (Br E g C) p A) x B)" "only D (set (whole fs (Br A x B))) h1 h2"
      unfolding rr by (fastforce simp: whole_def)
    have "splay_step D (Some x) (hole_parent fs) h = Inr (Some x, h2)"
      using tp tg h1(1) h2(1) rr by (simp add: splay_step_def step_simps)
    moreover have "whole rest (Br (Br (Br E g C) p A) x B) = whole fs (Br A x B)"
      using rr by (simp add: whole_def)
    moreover have "only D (set (whole fs (Br A x B))) h h2" using only_trans[OF D h1(3) h2(3)] .
    ultimately show ?thesis using h2(2) rr
      by (intro exI[of _ h2] exI[of _ "Br (Br E g C) p A"] exI[of _ B] exI[of _ rest]) simp
  next
    case rl
    note z1 = z[unfolded rl]
    from zip_frame_right[OF z1] obtain tp where
      tp: "?m p = Some tp" "parent tp = Some g" "left tp = rootp C" "right tp = Some x"
        "rootp C \<noteq> Some x" by auto
    note z2 = zip_up_right[THEN iffD1, OF z1]
    from zip_frame_left[OF z2] obtain tg where
      tg: "?m g = Some tg" "left tg = Some p" "right tg = rootp E" "rootp E \<noteq> Some p" by auto
    from rotate_left_zip[OF D z1] obtain h1 where
      h1: "rotate_left D (Some x) (Some p) h = Inr (Some x, h1)"
        "zip_at (lnk D h1) (InLeft g E # rest) (Br (Br C p A) x B)" "only D (set (whole fs (Br A x B))) h h1"
      unfolding rl by (fastforce simp: whole_def)
    from rotate_right_zip[OF D h1(2)] obtain h2 where
      h2: "rotate_right D (Some x) (Some g) h1 = Inr (Some x, h2)"
        "zip_at (lnk D h2) rest (Br (Br C p A) x (Br B g E))" "only D (set (whole fs (Br A x B))) h1 h2"
      unfolding rl by (fastforce simp: whole_def)
    have "splay_step D (Some x) (hole_parent fs) h = Inr (Some x, h2)"
      using tp tg h1(1) h2(1) rl by (simp add: splay_step_def step_simps)
    moreover have "whole rest (Br (Br C p A) x (Br B g E)) = whole fs (Br A x B)"
      using rl by (simp add: whole_def)
    moreover have "only D (set (whole fs (Br A x B))) h h2" using only_trans[OF D h1(3) h2(3)] .
    ultimately show ?thesis using h2(2) rl
      by (intro exI[of _ h2] exI[of _ "Br C p A"] exI[of _ "Br B g E"] exI[of _ rest]) simp
  next
    case lr
    note z1 = z[unfolded lr]
    from zip_frame_left[OF z1] obtain tp where
      tp: "?m p = Some tp" "parent tp = Some g" "left tp = Some x" "right tp = rootp C"
        "rootp C \<noteq> Some x" by auto
    note z2 = zip_up_left[THEN iffD1, OF z1]
    from zip_frame_right[OF z2] obtain tg where
      tg: "?m g = Some tg" "left tg = rootp E" "right tg = Some p" "rootp E \<noteq> Some p" by auto
    from rotate_right_zip[OF D z1] obtain h1 where
      h1: "rotate_right D (Some x) (Some p) h = Inr (Some x, h1)"
        "zip_at (lnk D h1) (InRight E g # rest) (Br A x (Br B p C))" "only D (set (whole fs (Br A x B))) h h1"
      unfolding lr by (fastforce simp: whole_def)
    from rotate_left_zip[OF D h1(2)] obtain h2 where
      h2: "rotate_left D (Some x) (Some g) h1 = Inr (Some x, h2)"
        "zip_at (lnk D h2) rest (Br (Br E g A) x (Br B p C))" "only D (set (whole fs (Br A x B))) h1 h2"
      unfolding lr by (fastforce simp: whole_def)
    have "splay_step D (Some x) (hole_parent fs) h = Inr (Some x, h2)"
      using tp tg h1(1) h2(1) lr by (simp add: splay_step_def step_simps)
    moreover have "whole rest (Br (Br E g A) x (Br B p C)) = whole fs (Br A x B)"
      using lr by (simp add: whole_def)
    moreover have "only D (set (whole fs (Br A x B))) h h2" using only_trans[OF D h1(3) h2(3)] .
    ultimately show ?thesis using h2(2) lr
      by (intro exI[of _ h2] exI[of _ "Br E g A"] exI[of _ "Br B p C"] exI[of _ rest]) simp
  qed
qed

lemma splay_loop_zip:
  assumes D: "lens D"
  shows "zip_at (lnk D h) fs (Br A x B) \<Longrightarrow> length fs < k
    \<Longrightarrow> \<exists>h' A' B'. splay_loop k D (Some x) h = Inr (Some x, h') \<and>
          zip_at (lnk D h') [] (Br A' x B') \<and>
          inorder (Br A' x B') = whole fs (Br A x B) \<and>
          only D (set (whole fs (Br A x B))) h h'"
proof (induction k arbitrary: h fs A B)
  case 0
  then show ?case by simp
next
  case (Suc k)
  from Suc.prems(1) obtain tx where tx: "lnk D h x = Some tx" "parent tx = hole_parent fs"
    by (auto simp: zip_at_def split: option.splits)
  show ?case
  proof (cases "fs = []")
    case True
    then show ?thesis using tx Suc.prems D
      by (auto simp: get_parent_lnk whole_def only_refl)
  next
    case False
    then have hp: "hole_parent fs \<noteq> None" by (cases fs rule: hole_parent.cases) auto
    from splay_step_zip[OF D Suc.prems(1) False] obtain h1 A1 B1 fs1 where
      s: "splay_step D (Some x) (hole_parent fs) h = Inr (Some x, h1)"
        "zip_at (lnk D h1) fs1 (Br A1 x B1)" "length fs1 < length fs"
        "whole fs1 (Br A1 x B1) = whole fs (Br A x B)"
        "only D (set (whole fs (Br A x B))) h h1" by blast
    have "length fs1 < k" using s(3) Suc.prems(2) by simp
    from Suc.IH[OF s(2) this] obtain h' A' B' where
      r: "splay_loop k D (Some x) h1 = Inr (Some x, h')" "zip_at (lnk D h') [] (Br A' x B')"
        "inorder (Br A' x B') = whole fs1 (Br A1 x B1)"
        "only D (set (whole fs1 (Br A1 x B1))) h1 h'" by blast
    have "splay_loop (Suc k) D (Some x) h = Inr (Some x, h')"
      using tx hp s(1) r(1) by (simp add: get_parent_lnk)
    moreover have "only D (set (whole fs (Br A x B))) h h'"
      using only_trans[OF D s(5) r(4)[unfolded s(4)]] .
    ultimately show ?thesis using r(2,3) s(4) by (metis)
  qed
qed

lemma so_irrefl: "strict_total c \<Longrightarrow> \<not> c a a"
  by (simp add: strict_total_def)

lemma so_trans: "strict_total c \<Longrightarrow> c a b \<Longrightarrow> c b d \<Longrightarrow> c a d"
  unfolding strict_total_def by blast

lemma so_asym: "strict_total c \<Longrightarrow> c a b \<Longrightarrow> \<not> c b a"
  unfolding strict_total_def by blast

lemma so_total: "strict_total c \<Longrightarrow> \<not> c a b \<Longrightarrow> \<not> c b a \<Longrightarrow> a = b"
  unfolding strict_total_def by blast

lemma strict_total_less: "strict_total ((<) :: 'a::linorder \<Rightarrow> 'a \<Rightarrow> bool)"
  by (auto simp: strict_total_def)

lemma strict_total_greater: "strict_total ((>) :: 'a::linorder \<Rightarrow> 'a \<Rightarrow> bool)"
  by (auto simp: strict_total_def)

lemma lop_in: "t \<noteq> Tip \<Longrightarrow> lop cmp k x t \<in> set (inorder t)"
  by (induction t) auto

lemma bst_Br:
  "bst c k (Br l a r) \<longleftrightarrow> bst c k l \<and> bst c k r \<and> (\<forall>b \<in> set (inorder l). c (k b) (k a)) \<and>
     (\<forall>b \<in> set (inorder r). c (k a) (k b)) \<and>
     (\<forall>b \<in> set (inorder l). \<forall>d \<in> set (inorder r). c (k b) (k d))"
  by (auto simp: bst_def sorted_wrt_append)

lemma lop_nearest:
  assumes so: "strict_total c"
  shows "bst c k t \<Longrightarrow> b \<in> set (inorder t) \<Longrightarrow>
     (c (k b) (k (lop c k x t)) \<longrightarrow> c (k b) x) \<and> (c (k (lop c k x t)) (k b) \<longrightarrow> c x (k b))"
proof (induction t)
  case Tip
  then show ?case by simp
next
  case (Br l a r)
  from Br.prems(1) have s: "bst c k l" "bst c k r" "\<forall>b \<in> set (inorder l). c (k b) (k a)"
    "\<forall>b \<in> set (inorder r). c (k a) (k b)" by (auto simp: bst_Br)
  consider (L) "c x (k a)" "l \<noteq> Tip" | (R) "\<not> (c x (k a) \<and> l \<noteq> Tip)" "c (k a) x" "r \<noteq> Tip"
    | (H) "\<not> (c x (k a) \<and> l \<noteq> Tip)" "\<not> (c (k a) x \<and> r \<noteq> Tip)" by blast
  then show ?case
  proof cases
    case L
    let ?a' = "lop c k x l"
    have a': "?a' \<in> set (inorder l)" by (rule lop_in) (rule L(2))
    then have lt: "c (k ?a') (k a)" using s by blast
    have eq: "lop c k x (Br l a r) = ?a'" using L by simp
    show ?thesis
    proof (cases "b \<in> set (inorder l)")
      case True
      then show ?thesis using Br.IH(1)[OF s(1) True] eq by simp
    next
      case False
      then have ge: "b = a \<or> c (k a) (k b)" using Br.prems(2) s(4) by auto
      have 1: "\<not> c (k b) (k ?a')"
        using ge lt so_asym[OF so lt] so_trans[OF so lt] so_asym[OF so, of "k ?a'" "k b"]
        by blast
      have 2: "c x (k b)" using ge L(1) so_trans[OF so L(1)] by blast
      show ?thesis unfolding eq using 1 2 by blast
    qed
  next
    case R
    let ?a' = "lop c k x r"
    have a': "?a' \<in> set (inorder r)" by (rule lop_in) (rule R(3))
    then have lt: "c (k a) (k ?a')" using s by blast
    have eq: "lop c k x (Br l a r) = ?a'" using R by auto
    show ?thesis
    proof (cases "b \<in> set (inorder r)")
      case True
      then show ?thesis using Br.IH(2)[OF s(2) True] eq by simp
    next
      case False
      then have le: "b = a \<or> c (k b) (k a)" using Br.prems(2) s(3) by auto
      have 1: "\<not> c (k ?a') (k b)"
        using le lt so_asym[OF so lt] so_trans[OF so _ lt, of "k b"]
          so_asym[OF so, of "k b" "k ?a'"]
        by blast
      have 2: "c (k b) x" using le R(2) so_trans[OF so _ R(2), of "k b"] by blast
      show ?thesis unfolding eq using 1 2 by blast
    qed
  next
    case H
    have eq: "lop c k x (Br l a r) = a" using H by auto
    have lT: "c x (k a) \<Longrightarrow> l = Tip" using H by blast
    have rT: "c (k a) x \<Longrightarrow> r = Tip" using H by blast
    show ?thesis unfolding eq
    proof (intro conjI impI)
      assume ba: "c (k b) (k a)"
      have nb: "b \<noteq> a" using ba so_irrefl[OF so] by blast
      have nr: "b \<notin> set (inorder r)" using s(4) so_asym[OF so ba] by blast
      then have bl: "b \<in> set (inorder l)" using Br.prems(2) nb by auto
      then have "l \<noteq> Tip" by auto
      then have nx: "\<not> c x (k a)" using lT by blast
      show "c (k b) x"
      proof (cases "c (k a) x")
        case True
        then show ?thesis using so_trans[OF so ba] by blast
      next
        case False
        then have "x = k a" using so_total[OF so nx] by blast
        then show ?thesis using ba by simp
      qed
    next
      assume ab: "c (k a) (k b)"
      have nb: "b \<noteq> a" using ab so_irrefl[OF so] by blast
      have nl: "b \<notin> set (inorder l)" using s(3) so_asym[OF so ab] by blast
      then have br: "b \<in> set (inorder r)" using Br.prems(2) nb by auto
      then have "r \<noteq> Tip" by auto
      then have nx: "\<not> c (k a) x" using rT by blast
      show "c x (k b)"
      proof (cases "c x (k a)")
        case True
        then show ?thesis using so_trans[OF so _ ab] by blast
      next
        case False
        then have "x = k a" using so_total[OF so False nx] by blast
        then show ?thesis using ab by simp
      qed
    qed
  qed
qed

lemma lop_hit:
  assumes "strict_total c" "bst c k t" "b \<in> set (inorder t)" "k b = x"
  shows "k (lop c k x t) = x"
proof -
  note n = lop_nearest[OF assms(1,2,3), of x]
  have "\<not> c (k b) (k (lop c k x t))" using n assms(4) so_irrefl[OF assms(1)] by blast
  moreover have "\<not> c (k (lop c k x t)) (k b)" using n assms(4) so_irrefl[OF assms(1)] by blast
  ultimately have "k b = k (lop c k x t)" by (rule so_total[OF assms(1)])
  then show ?thesis using assms(4) by simp
qed

lemma length_frames: "length fs \<le> length (ctx_before fs) + length (ctx_after fs)"
proof (induction fs)
  case Nil
  then show ?case by simp
next
  case (Cons f fs)
  then show ?case by (cases f) auto
qed

lemma zip_node:
  "zip_at m fs (Br l a r) \<Longrightarrow> \<exists>t. m a = Some t \<and> parent t = hole_parent fs \<and>
     left t = rootp l \<and> right t = rootp r"
  by (auto simp: zip_at_def split: option.splits)

lemma rootp_None: "rootp t = None \<longleftrightarrow> t = Tip"
  by (cases t) auto

lemma key_cong: "only D S h h' \<Longrightarrow> lens D \<Longrightarrow> key D h' a = key D h a"
  using only_key by metis

lemma find_rec_zip:
  assumes D: "lens D"
  shows "zip_at (lnk D h) fs t \<Longrightarrow> t \<noteq> Tip \<Longrightarrow> length (inorder t) \<le> n
    \<Longrightarrow> \<exists>fs' A B. find_rec n fuel D (rootp t) x cmp h
            = splay fuel D (Some (lop cmp (key D h) x t)) h \<and>
          zip_at (lnk D h) fs' (Br A (lop cmp (key D h) x t) B) \<and>
          whole fs' (Br A (lop cmp (key D h) x t) B) = whole fs t"
proof (induction t arbitrary: fs n)
  case Tip
  then show ?case by simp
next
  case (Br l a r)
  from zip_node[OF Br.prems(1)] obtain ta where
    ta: "lnk D h a = Some ta" "left ta = rootp l" "right ta = rootp r" by blast
  from Br.prems(3) obtain n' where n: "n = Suc n'" by (cases n) auto
  consider (L) "cmp x (key D h a)" "l \<noteq> Tip"
    | (R) "\<not> (cmp x (key D h a) \<and> l \<noteq> Tip)" "cmp (key D h a) x" "r \<noteq> Tip"
    | (H) "\<not> (cmp x (key D h a) \<and> l \<noteq> Tip)" "\<not> (cmp (key D h a) x \<and> r \<noteq> Tip)" by blast
  then show ?case
  proof cases
    case L
    have z: "zip_at (lnk D h) (InLeft a r # fs) l"
      using Br.prems(1) by (simp add: zip_up_left)
    have len: "length (inorder l) \<le> n'" using Br.prems(3) n by simp
    from Br.IH(1)[OF z L(2) len] obtain fs' A B where
      r: "find_rec n' fuel D (rootp l) x cmp h = splay fuel D (Some (lop cmp (key D h) x l)) h"
        "zip_at (lnk D h) fs' (Br A (lop cmp (key D h) x l) B)"
        "whole fs' (Br A (lop cmp (key D h) x l) B) = whole (InLeft a r # fs) l" by blast
    have "find_rec n fuel D (rootp (Br l a r)) x cmp h
        = splay fuel D (Some (lop cmp (key D h) x (Br l a r))) h"
      using L ta r(1) n
      by (simp add: get_value_key get_left_lnk andalso_def rootp_None)
    moreover have "whole (InLeft a r # fs) l = whole fs (Br l a r)" by (simp add: whole_def)
    ultimately show ?thesis using r(2,3) L by (intro exI[of _ fs'] exI[of _ A] exI[of _ B]) simp
  next
    case R
    have z: "zip_at (lnk D h) (InRight l a # fs) r"
      using Br.prems(1) by (simp add: zip_up_right)
    have len: "length (inorder r) \<le> n'" using Br.prems(3) n by simp
    from Br.IH(2)[OF z R(3) len] obtain fs' A B where
      r: "find_rec n' fuel D (rootp r) x cmp h = splay fuel D (Some (lop cmp (key D h) x r)) h"
        "zip_at (lnk D h) fs' (Br A (lop cmp (key D h) x r) B)"
        "whole fs' (Br A (lop cmp (key D h) x r) B) = whole (InRight l a # fs) r" by blast
    have "find_rec n fuel D (rootp (Br l a r)) x cmp h
        = splay fuel D (Some (lop cmp (key D h) x (Br l a r))) h"
      using R ta r(1) n
      by (auto simp add: get_value_key get_left_lnk get_right_lnk andalso_def rootp_None)
    moreover have "whole (InRight l a # fs) r = whole fs (Br l a r)" by (simp add: whole_def)
    ultimately show ?thesis using r(2,3) R by (intro exI[of _ fs'] exI[of _ A] exI[of _ B]) auto
  next
    case H
    have "find_rec n fuel D (rootp (Br l a r)) x cmp h
        = splay fuel D (Some (lop cmp (key D h) x (Br l a r))) h"
      using H ta n
      by (auto simp add: get_value_key get_left_lnk get_right_lnk andalso_def rootp_None)
    then show ?thesis using H Br.prems(1)
      by (intro exI[of _ fs] exI[of _ l] exI[of _ r]) auto
  qed
qed

lemma find_node_Tip: "0 < fuel \<Longrightarrow> find_node fuel D None x cmp h = Inr (None, h)"
  by (cases fuel) (auto simp: find_node_def)

lemma find_node_zip:
  assumes D: "lens D" and z: "zip_at (lnk D h) [] t" and ne: "t \<noteq> Tip"
    and fuel: "length (inorder t) < fuel"
  shows "\<exists>h' A B. find_node fuel D (rootp t) x cmp h = Inr (Some (lop cmp (key D h) x t), h') \<and>
           zip_at (lnk D h') [] (Br A (lop cmp (key D h) x t) B) \<and>
           inorder (Br A (lop cmp (key D h) x t) B) = inorder t \<and>
           only D (set (inorder t)) h h'"
proof -
  let ?a = "lop cmp (key D h) x t"
  have "length (inorder t) \<le> fuel" using fuel by simp
  from find_rec_zip[OF D z ne this, of fuel x cmp] obtain fs' A B where
    f: "find_rec fuel fuel D (rootp t) x cmp h = splay fuel D (Some ?a) h"
      "zip_at (lnk D h) fs' (Br A ?a B)" "whole fs' (Br A ?a B) = whole [] t" by blast
  have "length fs' < length (whole fs' (Br A ?a B))"
    using length_frames[of fs'] by (simp add: whole_def)
  moreover have "length (whole fs' (Br A ?a B)) = length (inorder t)"
    by (simp only: f(3)) (simp add: whole_def)
  ultimately have "length fs' < fuel" using fuel by linarith
  from splay_loop_zip[OF D f(2) this] obtain h' A' B' where
    s: "splay_loop fuel D (Some ?a) h = Inr (Some ?a, h')" "zip_at (lnk D h') [] (Br A' ?a B')"
      "inorder (Br A' ?a B') = whole fs' (Br A ?a B)"
      "only D (set (whole fs' (Br A ?a B))) h h'" by blast
  have "find_node fuel D (rootp t) x cmp h = Inr (Some ?a, h')"
    using f(1) s(1) by (simp add: find_node_def splay_def)
  moreover have "inorder (Br A' ?a B') = inorder t" using s(3) f(3) by (simp add: whole_def)
  moreover have "only D (set (inorder t)) h h'"
  proof -
    have "whole fs' (Br A ?a B) = inorder t" using f(3) by (simp add: whole_def)
    then show ?thesis using s(4) by simp
  qed
  ultimately show ?thesis using s(2) by blast
qed

lemma splay_zip:
  assumes D: "lens D" and z: "zip_at (lnk D h) fs (Br A x B)"
    and fuel: "length (whole fs (Br A x B)) \<le> fuel"
  shows "\<exists>h' A' B'. splay fuel D (Some x) h = Inr (Some x, h') \<and>
           zip_at (lnk D h') [] (Br A' x B') \<and>
           inorder (Br A' x B') = whole fs (Br A x B) \<and>
           only D (set (whole fs (Br A x B))) h h'"
proof -
  have "length fs < length (whole fs (Br A x B))"
    using length_frames[of fs] by (simp add: whole_def)
  then have "length fs < fuel" using fuel by simp
  from splay_loop_zip[OF D z this] show ?thesis by (simp add: splay_def)
qed

lemma sink_left_zip:
  "zip_at (lnk D h) fs t \<Longrightarrow> t \<noteq> Tip \<Longrightarrow> length (inorder t) \<le> n
    \<Longrightarrow> \<exists>fs' B. sink_left_loop n D h (rootp t) = Inr (Some (hd (inorder t))) \<and>
          zip_at (lnk D h) fs' (Br Tip (hd (inorder t)) B) \<and>
          whole fs' (Br Tip (hd (inorder t)) B) = whole fs t"
proof (induction t arbitrary: fs n)
  case Tip
  then show ?case by simp
next
  case (Br l a r)
  from zip_node[OF Br.prems(1)] obtain ta where
    ta: "lnk D h a = Some ta" "left ta = rootp l" by blast
  from Br.prems(3) obtain n' where n: "n = Suc n'" by (cases n) auto
  show ?case
  proof (cases "l = Tip")
    case True
    then have "sink_left_loop n D h (rootp (Br l a r)) = Inr (Some (hd (inorder (Br l a r))))"
      using ta n by (simp add: get_left_lnk)
    then show ?thesis using True Br.prems(1) by (intro exI[of _ fs] exI[of _ r]) auto
  next
    case False
    have z: "zip_at (lnk D h) (InLeft a r # fs) l"
      using Br.prems(1) by (simp add: zip_up_left)
    have len: "length (inorder l) \<le> n'" using Br.prems(3) n by simp
    from Br.IH(1)[OF z False len] obtain fs' B where
      r: "sink_left_loop n' D h (rootp l) = Inr (Some (hd (inorder l)))"
        "zip_at (lnk D h) fs' (Br Tip (hd (inorder l)) B)"
        "whole fs' (Br Tip (hd (inorder l)) B) = whole (InLeft a r # fs) l" by blast
    have lne: "inorder l \<noteq> []" using False by (cases l) auto
    have "sink_left_loop n D h (rootp (Br l a r)) = Inr (Some (hd (inorder (Br l a r))))"
      using ta n r(1) False lne by (simp add: get_left_lnk rootp_None)
    moreover have "whole (InLeft a r # fs) l = whole fs (Br l a r)" by (simp add: whole_def)
    ultimately show ?thesis using r(2,3) lne
      by (intro exI[of _ fs'] exI[of _ B]) simp
  qed
qed



lemma bst_cong: "inorder t' = inorder t \<Longrightarrow> bst c k t' = bst c k t"
  by (simp add: bst_def)

lemma inorder_Nil: "inorder t = [] \<longleftrightarrow> t = Tip"
  by (cases t) auto

lemma find_node_top:
  assumes D: "lens D" and so: "strict_total c" and z: "zip_at (lnk D h) [] t"
    and b: "bst c (key D h) t"
    and fuel: "length (inorder t) < fuel"
  shows "\<exists>h' t'. find_node fuel D (rootp t) x c h = Inr (rootp t', h') \<and>
           zip_at (lnk D h') [] t' \<and> inorder t' = inorder t \<and>
           only D (set (inorder t)) h h' \<and> near c (key D h) x t'"
proof (cases t)
  case Tip
  have "0 < fuel" using fuel by simp
  then have "find_node fuel D (rootp t) x c h = Inr (rootp Tip, h)"
    using Tip by (simp add: find_node_Tip)
  then show ?thesis using Tip z D by (auto simp: only_refl near_def intro!: exI[of _ Tip])
next
  case (Br l d r)
  then have ne: "t \<noteq> Tip" by simp
  let ?a = "lop c (key D h) x t"
  from find_node_zip[OF D z ne fuel, of x c] obtain h' A B where
    f: "find_node fuel D (rootp t) x c h = Inr (Some ?a, h')"
      "zip_at (lnk D h') [] (Br A ?a B)" "inorder (Br A ?a B) = inorder t"
      "only D (set (inorder t)) h h'" by blast
  have bs: "bst c (key D h) (Br A ?a B)" using b f(3) bst_cong by blast
  have "near c (key D h) x (Br A ?a B)"
    unfolding near_def shape.case
  proof (intro conjI ballI)
    fix b assume bA: "b \<in> set (inorder A)"
    then have "b \<in> set (inorder t)" using f(3)[symmetric] by simp
    moreover have "c (key D h b) (key D h ?a)" using bs bA by (auto simp: bst_Br)
    ultimately show "c (key D h b) x" using lop_nearest[OF so b] by blast
  next
    fix b assume bB: "b \<in> set (inorder B)"
    then have "b \<in> set (inorder t)" using f(3)[symmetric] by simp
    moreover have "c (key D h ?a) (key D h b)" using bs bB by (auto simp: bst_Br)
    ultimately show "c x (key D h b)" using lop_nearest[OF so b] by blast
  qed
  then show ?thesis using f by (intro exI[of _ h'] exI[of _ "Br A ?a B"]) simp
qed

lemma near_hit:
  assumes "strict_total c" "near c k x (Br A a B)" "b \<in> set (inorder (Br A a B))" "k b = x"
  shows "b = a"
  using assms(2,3,4) so_irrefl[OF assms(1), of x] by (auto simp: near_def)

lemma minimum_zip:
  assumes D: "lens D" and z: "zip_at (lnk D h) fs t" and ne: "t \<noteq> Tip"
    and fuel: "length (whole fs t) \<le> fuel"
  shows "\<exists>h' A B. minimum fuel D (rootp t) h = Inr (Some (hd (inorder t)), h') \<and>
           zip_at (lnk D h') [] (Br A (hd (inorder t)) B) \<and>
           inorder (Br A (hd (inorder t)) B) = whole fs t \<and>
           only D (set (whole fs t)) h h'"
proof -
  let ?a = "hd (inorder t)"
  have "length (inorder t) \<le> fuel" using fuel by (simp add: whole_def)
  from sink_left_zip[OF z ne this] obtain fs' B where
    s: "sink_left_loop fuel D h (rootp t) = Inr (Some ?a)"
      "zip_at (lnk D h) fs' (Br Tip ?a B)" "whole fs' (Br Tip ?a B) = whole fs t" by blast
  have "length (whole fs' (Br Tip ?a B)) \<le> fuel" using fuel s(3) by simp
  from splay_zip[OF D s(2) this] obtain h' A' B' where
    r: "splay fuel D (Some ?a) h = Inr (Some ?a, h')" "zip_at (lnk D h') [] (Br A' ?a B')"
      "inorder (Br A' ?a B') = whole fs' (Br Tip ?a B)"
      "only D (set (whole fs' (Br Tip ?a B))) h h'" by blast
  have "minimum fuel D (rootp t) h = Inr (Some ?a, h')"
    using s(1) r(1) by (simp add: minimum_def sink_left_def)
  then show ?thesis using r(2,3,4) unfolding s(3) by blast
qed

lemma find_all_fail: "(\<And>b. b \<in> set xs \<Longrightarrow> \<not> P b) \<Longrightarrow> List.find P (xs @ ys) = List.find P ys"
  by (induction xs) auto

lemma find_hd: "ys \<noteq> [] \<Longrightarrow> P (hd ys) \<Longrightarrow> List.find P ys = Some (hd ys)"
  by (cases ys) auto

text \<open>The two bound queries share everything but the test at the root.\<close>

lemma bound_after_find:
  assumes D: "lens D" and z: "zip_at (lnk D h) [] (Br A a B)"
    and fuel: "length (inorder (Br A a B)) \<le> fuel"
    and PA: "\<And>b. b \<in> set (inorder A) \<Longrightarrow> \<not> P b"
    and PB: "\<And>b. b \<in> set (inorder B) \<Longrightarrow> P b" and Pa: "\<not> P a"
  shows "\<exists>h' t'. bind (get_right D h (Some a)) (\<lambda>r.
             if r \<noteq> None then bind (minimum fuel D r h) (\<lambda>(root, h). Inr (root, root, h))
             else Inr (None, Some a, h))
           = Inr (List.find P (inorder (Br A a B)), rootp t', h') \<and>
           zip_at (lnk D h') [] t' \<and> inorder t' = inorder (Br A a B) \<and>
           only D (set (inorder (Br A a B))) h h'"
proof -
  from zip_node[OF z] obtain ta where ta: "lnk D h a = Some ta" "right ta = rootp B" by blast
  have fnd: "List.find P (inorder (Br A a B)) = List.find P (inorder B)"
    using find_all_fail[of "inorder A @ [a]" P "inorder B"] PA Pa by auto
  show ?thesis
  proof (cases B)
    case Tip
    then show ?thesis using ta fnd z D
      by (auto simp: get_right_lnk only_refl intro!: exI[of _ h] exI[of _ "Br A a Tip"])
  next
    case (Br l d r)
    then have ne: "B \<noteq> Tip" by simp
    have zB: "zip_at (lnk D h) [InRight A a] B" using z by (simp add: zip_up_right)
    have w: "whole [InRight A a] B = inorder (Br A a B)" by (simp add: whole_def)
    have "length (whole [InRight A a] B) \<le> fuel" using fuel w by simp
    from minimum_zip[OF D zB ne this] obtain h' A' B' where
      m: "minimum fuel D (rootp B) h = Inr (Some (hd (inorder B)), h')"
        "zip_at (lnk D h') [] (Br A' (hd (inorder B)) B')"
        "inorder (Br A' (hd (inorder B)) B') = whole [InRight A a] B"
        "only D (set (whole [InRight A a] B)) h h'" by blast
    have "inorder B \<noteq> []" using ne by (simp add: inorder_Nil)
    then have "List.find P (inorder B) = Some (hd (inorder B))"
      using PB by (intro find_hd) auto
    then show ?thesis using ta m fnd ne unfolding w
      by (intro exI[of _ h'] exI[of _ "Br A' (hd (inorder B)) B'"])
        (simp add: get_right_lnk rootp_None)
  qed
qed

lemma lower_bound_spec:
  assumes D: "lens D" and so: "strict_total c" and z: "zip_at (lnk D h) [] t"
    and b: "bst c (key D h) t"
    and fuel: "length (inorder t) < fuel"
  shows "\<exists>h' t'. lower_bound fuel D (rootp t) x c h
             = Inr (List.find (\<lambda>a. \<not> c (key D h a) x) (inorder t), rootp t', h') \<and>
           zip_at (lnk D h') [] t' \<and> inorder t' = inorder t \<and>
           only D (set (inorder t)) h h'"
proof -
  from find_node_top[OF D so z b fuel, of x] obtain h1 t1 where
    f: "find_node fuel D (rootp t) x c h = Inr (rootp t1, h1)" "zip_at (lnk D h1) [] t1"
      "inorder t1 = inorder t" "only D (set (inorder t)) h h1" "near c (key D h) x t1" by blast
  have k1: "key D h1 = key D h" using only_key[OF D f(4)] .
  show ?thesis
  proof (cases t1)
    case Tip
    then have "inorder t = []" using f(3) by simp
    then show ?thesis using f Tip
      by (intro exI[of _ h1] exI[of _ Tip]) (simp add: lower_bound_def)
  next
    case (Br A a B)
    from zip_node[OF f(2)[unfolded Br]] obtain ta where ta: "lnk D h1 a = Some ta" by blast
    have nA: "\<And>b. b \<in> set (inorder A) \<Longrightarrow> c (key D h b) x"
      and nB: "\<And>b. b \<in> set (inorder B) \<Longrightarrow> c x (key D h b)"
      using f(5) Br by (auto simp: near_def)
    have nB': "\<And>b. b \<in> set (inorder B) \<Longrightarrow> \<not> c (key D h b) x"
      using nB so_asym[OF so] by blast
    show ?thesis
    proof (cases "c (key D h a) x")
      case False
      have "List.find (\<lambda>a. \<not> c (key D h a) x) (inorder t1) = Some a"
        using find_all_fail[of "inorder A" "\<lambda>a. \<not> c (key D h a) x" "a # inorder B"] nA False Br
        by auto
      then show ?thesis using f Br ta False k1
        by (intro exI[of _ h1] exI[of _ t1]) (simp add: lower_bound_def get_value_key)
    next
      case True
      have len: "length (inorder (Br A a B)) \<le> fuel" using fuel f(3) Br by simp
      have "\<exists>h' t'. bind (get_right D h1 (Some a)) (\<lambda>r.
             if r \<noteq> None then bind (minimum fuel D r h1) (\<lambda>(root, h). Inr (root, root, h))
             else Inr (None, Some a, h1))
           = Inr (List.find (\<lambda>a. \<not> c (key D h a) x) (inorder (Br A a B)), rootp t', h') \<and>
           zip_at (lnk D h') [] t' \<and> inorder t' = inorder (Br A a B) \<and>
           only D (set (inorder (Br A a B))) h1 h'"
        by (rule bound_after_find[OF D f(2)[unfolded Br] len]) (use nA nB' True in simp_all)
      then obtain h' t' where
        m: "bind (get_right D h1 (Some a)) (\<lambda>r.
             if r \<noteq> None then bind (minimum fuel D r h1) (\<lambda>(root, h). Inr (root, root, h))
             else Inr (None, Some a, h1))
           = Inr (List.find (\<lambda>a. \<not> c (key D h a) x) (inorder (Br A a B)), rootp t', h')"
          "zip_at (lnk D h') [] t'" "inorder t' = inorder (Br A a B)"
          "only D (set (inorder (Br A a B))) h1 h'"
        by blast
      have "lower_bound fuel D (rootp t) x c h
          = Inr (List.find (\<lambda>a. \<not> c (key D h a) x) (inorder t), rootp t', h')"
        using f(1) Br ta True k1 m(1) f(3)
        by (simp add: lower_bound_def get_value_key)
      moreover have "only D (set (inorder t)) h h'"
      proof -
        have e: "inorder (Br A a B) = inorder t" using f(3) Br by simp
        show ?thesis using only_trans[OF D f(4) m(4)[unfolded e]] .
      qed
      ultimately show ?thesis using m(2,3) f(3) Br by (intro exI[of _ h'] exI[of _ t']) simp
    qed
  qed
qed

lemma upper_bound_spec:
  assumes D: "lens D" and so: "strict_total c" and z: "zip_at (lnk D h) [] t"
    and b: "bst c (key D h) t"
    and fuel: "length (inorder t) < fuel"
  shows "\<exists>h' t'. upper_bound fuel D (rootp t) x c h
             = Inr (List.find (\<lambda>a. c x (key D h a)) (inorder t), rootp t', h') \<and>
           zip_at (lnk D h') [] t' \<and> inorder t' = inorder t \<and>
           only D (set (inorder t)) h h'"
proof -
  from find_node_top[OF D so z b fuel, of x] obtain h1 t1 where
    f: "find_node fuel D (rootp t) x c h = Inr (rootp t1, h1)" "zip_at (lnk D h1) [] t1"
      "inorder t1 = inorder t" "only D (set (inorder t)) h h1" "near c (key D h) x t1" by blast
  have k1: "key D h1 = key D h" using only_key[OF D f(4)] .
  show ?thesis
  proof (cases t1)
    case Tip
    then have "inorder t = []" using f(3) by simp
    then show ?thesis using f Tip
      by (intro exI[of _ h1] exI[of _ Tip]) (simp add: upper_bound_def)
  next
    case (Br A a B)
    from zip_node[OF f(2)[unfolded Br]] obtain ta where ta: "lnk D h1 a = Some ta" by blast
    have nA: "\<And>b. b \<in> set (inorder A) \<Longrightarrow> c (key D h b) x"
      and nB: "\<And>b. b \<in> set (inorder B) \<Longrightarrow> c x (key D h b)"
      using f(5) Br by (auto simp: near_def)
    have nA': "\<And>b. b \<in> set (inorder A) \<Longrightarrow> \<not> c x (key D h b)"
      using nA so_asym[OF so] by blast
    show ?thesis
    proof (cases "c x (key D h a)")
      case True
      have "List.find (\<lambda>a. c x (key D h a)) (inorder t1) = Some a"
        using find_all_fail[of "inorder A" "\<lambda>a. c x (key D h a)" "a # inorder B"] nA' True Br
        by auto
      then show ?thesis using f Br ta True k1
        by (intro exI[of _ h1] exI[of _ t1]) (simp add: upper_bound_def get_value_key)
    next
      case False
      have len: "length (inorder (Br A a B)) \<le> fuel" using fuel f(3) Br by simp
      have "\<exists>h' t'. bind (get_right D h1 (Some a)) (\<lambda>r.
             if r \<noteq> None then bind (minimum fuel D r h1) (\<lambda>(root, h). Inr (root, root, h))
             else Inr (None, Some a, h1))
           = Inr (List.find (\<lambda>a. c x (key D h a)) (inorder (Br A a B)), rootp t', h') \<and>
           zip_at (lnk D h') [] t' \<and> inorder t' = inorder (Br A a B) \<and>
           only D (set (inorder (Br A a B))) h1 h'"
        by (rule bound_after_find[OF D f(2)[unfolded Br] len]) (use nA' nB False in simp_all)
      then obtain h' t' where
        m: "bind (get_right D h1 (Some a)) (\<lambda>r.
             if r \<noteq> None then bind (minimum fuel D r h1) (\<lambda>(root, h). Inr (root, root, h))
             else Inr (None, Some a, h1))
           = Inr (List.find (\<lambda>a. c x (key D h a)) (inorder (Br A a B)), rootp t', h')"
          "zip_at (lnk D h') [] t'" "inorder t' = inorder (Br A a B)"
          "only D (set (inorder (Br A a B))) h1 h'"
        by blast
      have "upper_bound fuel D (rootp t) x c h
          = Inr (List.find (\<lambda>a. c x (key D h a)) (inorder t), rootp t', h')"
        using f(1) Br ta False k1 m(1) f(3)
        by (simp add: upper_bound_def get_value_key)
      moreover have "only D (set (inorder t)) h h'"
      proof -
        have e: "inorder (Br A a B) = inorder t" using f(3) Br by simp
        show ?thesis using only_trans[OF D f(4) m(4)[unfolded e]] .
      qed
      ultimately show ?thesis using m(2,3) f(3) Br by (intro exI[of _ h'] exI[of _ t']) simp
    qed
  qed
qed

lemma lnk_live: "lnk D h a = Some t \<Longrightarrow> h a \<noteq> None"
  by (auto simp: lnk_def)

lemma get_value_live: "h a \<noteq> None \<Longrightarrow> get_value D h (Some a) = Inr (key D h a)"
  by (auto simp: get_value_def deref_def key_def)

lemma zip_live: "zip_at (lnk D h) fs t \<Longrightarrow> a \<in> set (inorder t) \<Longrightarrow> h a \<noteq> None"
  using tree_at_dom[of "lnk D h" "hole_parent fs" t a] by (auto simp: zip_at_def lnk_def)

lemma inv_left_op:
  assumes inv: "bimap_inv (b, h) lt rt" and o: "only left_descriptor_t S h h'"
    and z: "zip_at (lnk left_descriptor_t h') [] lt'" and i: "inorder lt' = inorder lt"
  shows "bimap_inv (b\<lparr>left_root := rootp lt'\<rparr>, h') lt' rt" "pairs h' lt' = pairs h lt"
proof -
  have kl: "key left_descriptor_t h' = key left_descriptor_t h"
    using only_key[OF lens_left o] .
  have kr: "key right_descriptor_t h' = key right_descriptor_t h"
    using only_other_key[OF indep_left_right o] .
  have lr: "lnk right_descriptor_t h' = lnk right_descriptor_t h"
    using only_other_lnk[OF indep_left_right o] .
  show "bimap_inv (b\<lparr>left_root := rootp lt'\<rparr>, h') lt' rt"
    using inv z i kl kr lr by (simp add: bimap_inv_def bst_def)
  show "pairs h' lt' = pairs h lt" using i kl kr by (simp add: pairs_def)
qed

lemma inv_right_op:
  assumes inv: "bimap_inv (b, h) lt rt" and o: "only right_descriptor_t S h h'"
    and z: "zip_at (lnk right_descriptor_t h') [] rt'" and i: "inorder rt' = inorder rt"
  shows "bimap_inv (b\<lparr>right_root := rootp rt'\<rparr>, h') lt rt'" "pairs h' lt = pairs h lt"
proof -
  have kl: "key left_descriptor_t h' = key left_descriptor_t h"
    using only_other_key[OF indep_right_left o] .
  have kr: "key right_descriptor_t h' = key right_descriptor_t h"
    using only_key[OF lens_right o] .
  have lr: "lnk left_descriptor_t h' = lnk left_descriptor_t h"
    using only_other_lnk[OF indep_right_left o] .
  show "bimap_inv (b\<lparr>right_root := rootp rt'\<rparr>, h') lt rt'"
    using inv z i kl kr lr by (simp add: bimap_inv_def bst_def)
  show "pairs h' lt = pairs h lt" using kl kr by (simp add: pairs_def)
qed

lemma at_element_spec:
  assumes D: "lens D1" and I: "indep D1 D2" and so: "strict_total cmp"
    and z: "zip_at (lnk D1 h) [] t"
    and b: "bst cmp (key D1 h) t" and fuel: "length (inorder t) < fuel"
  shows "(x \<notin> key D1 h ` set (inorder t) \<longrightarrow>
            at_element fuel D1 D2 (rootp t) x cmp h = Inl OutOfRange) \<and>
         (\<forall>a \<in> set (inorder t). key D1 h a = x \<longrightarrow>
            (\<exists>h' t'. at_element fuel D1 D2 (rootp t) x cmp h = Inr (key D2 h a, rootp t', h') \<and>
               zip_at (lnk D1 h') [] t' \<and> inorder t' = inorder t \<and>
               only D1 (set (inorder t)) h h'))"
proof -
  from find_node_top[OF D so z b fuel, of x] obtain h1 t1 where
    f: "find_node fuel D1 (rootp t) x cmp h = Inr (rootp t1, h1)" "zip_at (lnk D1 h1) [] t1"
      "inorder t1 = inorder t" "only D1 (set (inorder t)) h h1" "near cmp (key D1 h) x t1" by blast
  have k1: "key D1 h1 = key D1 h" using only_key[OF D f(4)] .
  have k2: "key D2 h1 = key D2 h" using only_other_key[OF I f(4)] .
  show ?thesis
  proof (cases t1)
    case Tip
    then have "inorder t = []" using f(3) by simp
    then show ?thesis using f(1) Tip by (simp add: at_element_def orelse_def)
  next
    case (Br A a B)
    have live: "h1 a \<noteq> None" using zip_live[OF f(2)] Br by simp
    have a_in: "a \<in> set (inorder t)" using f(3)[symmetric] Br by simp
    have e: "inorder t = inorder (Br A a B)" using f(3) Br by simp
    show ?thesis
    proof (cases "key D1 h a = x")
      case True
      have uniq: "\<And>c. c \<in> set (inorder t) \<Longrightarrow> key D1 h c = x \<Longrightarrow> c = a"
      proof -
        fix c assume "c \<in> set (inorder t)" "key D1 h c = x"
        then show "c = a" using near_hit[OF so f(5)[unfolded Br], of c] by (simp only: e)
      qed
      have r: "at_element fuel D1 D2 (rootp t) x cmp h = Inr (key D2 h a, rootp t1, h1)"
        using f(1) Br live True k1 k2 by (simp add: at_element_def orelse_def get_value_live)
      show ?thesis
      proof (intro conjI impI ballI)
        assume "x \<notin> key D1 h ` set (inorder t)"
        then have False using True a_in by blast
        then show "at_element fuel D1 D2 (rootp t) x cmp h = Inl OutOfRange" ..
      next
        fix c assume "c \<in> set (inorder t)" "key D1 h c = x"
        then have "c = a" by (rule uniq)
        then show "\<exists>h' t'. at_element fuel D1 D2 (rootp t) x cmp h
              = Inr (key D2 h c, rootp t', h') \<and>
            zip_at (lnk D1 h') [] t' \<and> inorder t' = inorder t \<and>
            only D1 (set (inorder t)) h h'"
          using r f(2,3,4) by blast
      qed
    next
      case False
      have nohit: "\<And>c. c \<in> set (inorder t) \<Longrightarrow> key D1 h c = x \<Longrightarrow> False"
      proof -
        fix c assume c: "c \<in> set (inorder t)" "key D1 h c = x"
        then have "c = a" using near_hit[OF so f(5)[unfolded Br], of c] by (simp only: e)
        then show False using False c(2) by simp
      qed
      have r: "at_element fuel D1 D2 (rootp t) x cmp h = Inl OutOfRange"
        using f(1) Br live False k1 by (simp add: at_element_def orelse_def get_value_live)
      show ?thesis
      proof (intro conjI impI ballI)
        show "at_element fuel D1 D2 (rootp t) x cmp h = Inl OutOfRange" by (rule r)
      next
        fix c assume "c \<in> set (inorder t)" "key D1 h c = x"
        then have False by (rule nohit)
        then show "\<exists>h' t'. at_element fuel D1 D2 (rootp t) x cmp h
              = Inr (key D2 h c, rootp t', h') \<and>
            zip_at (lnk D1 h') [] t' \<and> inorder t' = inorder t \<and>
            only D1 (set (inorder t)) h h'" ..
      qed
    qed
  qed
qed

lemma inv_lengths:
  assumes "bimap_inv (b, h) lt rt"
  shows "length (inorder rt) = length (inorder lt)"
proof -
  have "distinct (inorder lt)" "distinct (inorder rt)" "set (inorder lt) = set (inorder rt)"
    using assms by (auto simp: bimap_inv_def zip_at_def)
  then show ?thesis using distinct_card[of "inorder lt"] distinct_card[of "inorder rt"] by simp
qed

lemma two_pairs_state:
  "case two_pairs of Inl e \<Rightarrow> False
   | Inr (it, s) \<Rightarrow> fst s = two_bimap \<and> (\<forall>a \<in> {0, 1, 2}. snd s a = two_heap a)"
  unfolding two_pairs_def one_pair_def empty_state_def two_bimap_def two_heap_def
  by (simp add: insert_pair_def insert_by_values_def bimap_init_def find_node_def
      eval_nat_numeral bind_def andalso_def orelse_def alloc_node_def insert_node_def
      get_value_def get_left_def get_right_def get_parent_def deref_def split_node_def
      put_left_def put_right_def put_parent_def modify_def set_parent_def node_init_def
      tree_node_init_def left_descriptor_t_def right_descriptor_t_def splay_def
      left_iterator_def)

lemma two_state_inv: "bimap_inv (two_bimap, two_heap) two_shape two_shape"
  by (simp add: bimap_inv_def two_bimap_def two_heap_def two_shape_def zip_at_def lnk_def
      bst_def key_def left_descriptor_t_def right_descriptor_t_def strict_total_less)

lemma two_state_pairs: "pairs two_heap two_shape = {(1, 1), (2, 2)}"
  by (auto simp: pairs_def two_heap_def two_shape_def key_def left_descriptor_t_def
      right_descriptor_t_def)

lemma two_shape_order: "inorder two_shape = [0, 1]"
  by (simp add: two_shape_def)

lemma zero_state_inv: "bimap_inv (two_bimap, zero_heap) two_shape zero_shape"
  by (auto simp: bimap_inv_def two_bimap_def zero_heap_def two_shape_def zero_shape_def
      zip_at_def lnk_def bst_def key_def left_descriptor_t_def right_descriptor_t_def
      strict_total_less)

lemma zero_state_pairs: "pairs zero_heap two_shape = {(0, 7), (2, 0)}"
  by (auto simp: pairs_def zero_heap_def two_shape_def key_def left_descriptor_t_def
      right_descriptor_t_def)

lemma down_state_inv: "bimap_inv (down_bimap, down_heap) two_shape two_shape"
  by (simp add: bimap_inv_def down_bimap_def down_heap_def two_shape_def zip_at_def lnk_def
      bst_def key_def left_descriptor_t_def right_descriptor_t_def strict_total_greater)

lemma down_state_pairs: "pairs down_heap two_shape = {(5, 9), (3, 4)}"
  by (auto simp: pairs_def down_heap_def two_shape_def key_def left_descriptor_t_def
      right_descriptor_t_def)

lemma zero_pairs_state:
  "case bind (insert_pair 3 0 0 0 7 empty_state) (\<lambda>(_, s). insert_pair 3 0 1 2 0 s) of
     Inl e \<Rightarrow> False
   | Inr (it, s) \<Rightarrow> fst s = two_bimap \<and> (\<forall>a \<in> {0, 1, 2}. snd s a = zero_heap a)"
  unfolding empty_state_def two_bimap_def zero_heap_def
  by (simp add: insert_pair_def insert_by_values_def bimap_init_def find_node_def
      eval_nat_numeral bind_def andalso_def orelse_def alloc_node_def insert_node_def
      get_value_def get_left_def get_right_def get_parent_def deref_def split_node_def
      put_left_def put_right_def put_parent_def modify_def set_parent_def node_init_def
      tree_node_init_def left_descriptor_t_def right_descriptor_t_def splay_def
      left_iterator_def)

lemma down_pairs_state:
  "case bind (insert_pair 3 0 0 5 9 (bimap_init (>) (>), Map.empty))
          (\<lambda>(_, s). insert_pair 3 0 1 3 4 s) of
     Inl e \<Rightarrow> False
   | Inr (it, s) \<Rightarrow> fst s = down_bimap \<and> (\<forall>a \<in> {0, 1, 2}. snd s a = down_heap a)"
  unfolding down_bimap_def down_heap_def
  by (simp add: insert_pair_def insert_by_values_def bimap_init_def find_node_def
      eval_nat_numeral bind_def andalso_def orelse_def alloc_node_def insert_node_def
      get_value_def get_left_def get_right_def get_parent_def deref_def split_node_def
      put_left_def put_right_def put_parent_def modify_def set_parent_def node_init_def
      tree_node_init_def left_descriptor_t_def right_descriptor_t_def splay_def
      left_iterator_def)

lemma tree_at_keep:
  "tree_at m par t \<Longrightarrow> (\<And>c. c \<in> set (inorder t) \<Longrightarrow> m' c = m c) \<Longrightarrow> tree_at m' par t"
  using tree_at_cong[of t m' m par] by blast

lemma zip_top: "zip_at m [] t \<longleftrightarrow> tree_at m None t \<and> distinct (inorder t)"
  by (simp add: zip_at_def)

lemma set_parent_tree:
  assumes t: "tree_at (lnk D h) par t"
  shows "set_parent D (rootp t) v h = Inr (reparent D (rootp t) v h)"
proof (cases t)
  case Tip
  then show ?thesis by (simp add: set_parent_reparent)
next
  case (Br l a r)
  then have "lnk D h a \<noteq> None" using t by (auto split: option.splits)
  then show ?thesis using Br by (simp add: set_parent_reparent)
qed

lemma reparent_tree:
  assumes D: "lens D" and t: "tree_at (lnk D h) par t" and d: "distinct (inorder t)"
  shows "tree_at (lnk D (reparent D (rootp t) v h)) v t"
proof (rule tree_at_reparent[OF t d])
  fix c assume "c \<in> set (inorder t)" "rootp t \<noteq> Some c"
  then show "lnk D (reparent D (rootp t) v h) c = lnk D h c" using D by (simp add: lnk_reparent)
next
  fix c u assume "rootp t = Some c" "lnk D h c = Some u"
  then show "lnk D (reparent D (rootp t) v h) c = Some (u\<lparr>parent := v\<rparr>)"
    using D by (simp add: lnk_reparent)
qed

lemma reparent_other:
  "lens D \<Longrightarrow> c \<notin> set (inorder t) \<Longrightarrow> lnk D (reparent D (rootp t) v h) c = lnk D h c"
  using rootp_in[of t c] by (auto simp: lnk_reparent)

lemma only_reparent_tree:
  "lens D \<Longrightarrow> set (inorder t) \<subseteq> S \<Longrightarrow> only D S h (reparent D (rootp t) v h)"
  by (rule only_reparent) (use rootp_in only_refl in blast)+

lemma lnk_upd_same: "lens D \<Longrightarrow> lnk D h a = Some u \<Longrightarrow> lnk D (upd D a t h) a = Some t"
  by (simp add: lnk_upd)

lemma lnk_upd_other: "lens D \<Longrightarrow> c \<noteq> a \<Longrightarrow> lnk D (upd D a t h) c = lnk D h c"
  by (simp add: lnk_upd)

lemma split_node_spec:
  assumes D: "lens D" and so: "strict_total cmp" and z: "zip_at (lnk D h) [] t"
    and b: "bst cmp (key D h) t"
    and fuel: "length (inorder t) < fuel"
  shows "\<exists>h' t1 t2. split_node fuel D (rootp t) x cmp h = Inr ((rootp t1, rootp t2), h') \<and>
           zip_at (lnk D h') [] t1 \<and> zip_at (lnk D h') [] t2 \<and>
           inorder t1 @ inorder t2 = inorder t \<and>
           (\<forall>c \<in> set (inorder t1). \<not> cmp x (key D h c)) \<and>
           (\<forall>c \<in> set (inorder t2). cmp x (key D h c)) \<and>
           only D (set (inorder t)) h h'"
proof (cases t)
  case Tip
  then show ?thesis using D
    by (intro exI[of _ h] exI[of _ Tip]) (simp add: split_node_def zip_at_def only_refl)
next
  case (Br l0 c0 r0)
  from find_node_top[OF D so z b fuel, of x] obtain h1 t1 where
    f: "find_node fuel D (rootp t) x cmp h = Inr (rootp t1, h1)" "zip_at (lnk D h1) [] t1"
      "inorder t1 = inorder t" "only D (set (inorder t)) h h1" "near cmp (key D h) x t1" by blast
  have k1: "key D h1 = key D h" using only_key[OF D f(4)] .
  from Br f(3) obtain A a B where t1: "t1 = Br A a B" by (cases t1) auto
  have e: "inorder t = inorder (Br A a B)" using f(3) t1 by simp
  let ?S = "set (inorder (Br A a B))"
  have o1: "only D ?S h h1" using f(4) unfolding e .
  from zip_node[OF f(2)[unfolded t1]] obtain ta where
    ta: "lnk D h1 a = Some ta" "parent ta = None" "left ta = rootp A" "right ta = rootp B"
    by auto
  have tr: "tree_at (lnk D h1) (Some a) A" "tree_at (lnk D h1) (Some a) B"
    and dist: "distinct (inorder A @ a # inorder B)"
    using f(2) t1 ta by (auto simp: zip_at_def)
  have nA: "\<And>c. c \<in> set (inorder A) \<Longrightarrow> cmp (key D h c) x"
    and nB: "\<And>c. c \<in> set (inorder B) \<Longrightarrow> cmp x (key D h c)"
    using f(5) t1 by (auto simp: near_def)
  have nA': "\<And>c. c \<in> set (inorder A) \<Longrightarrow> \<not> cmp x (key D h c)"
    using nA so_asym[OF so] by blast
  have live: "h1 a \<noteq> None" using ta lnk_live by blast
  have ne: "rootp t \<noteq> None" using Br by simp
  show ?thesis
  proof (cases "cmp x (key D h a)")
    case False
    define h2 where "h2 = reparent D (rootp B) None h1"
    define h3 where "h3 = upd D a (ta\<lparr>right := None\<rparr>) h2"
    have aB: "a \<notin> set (inorder B)" using dist by auto
    have m2a: "lnk D h2 a = Some ta" using ta reparent_other[OF D aB] by (simp add: h2_def)
    have run: "split_node fuel D (rootp t) x cmp h = Inr ((rootp (Br A a Tip), rootp B), h3)"
      using ne f(1) t1 live k1 False ta m2a set_parent_tree[OF tr(2)]
      by (simp add: split_node_def get_value_live get_right_lnk put_right_lnk
          h2_def[symmetric] h3_def[symmetric])
    have tB2: "tree_at (lnk D h2) None B"
      unfolding h2_def by (rule reparent_tree[OF D tr(2)]) (use dist in auto)
    have tB: "tree_at (lnk D h3) None B"
      by (rule tree_at_keep[OF tB2]) (use aB D in \<open>auto simp: h3_def lnk_upd\<close>)
    have tA: "tree_at (lnk D h3) (Some a) A"
    proof (rule tree_at_keep[OF tr(1)])
      fix c assume c: "c \<in> set (inorder A)"
      then have "c \<noteq> a" "c \<notin> set (inorder B)" using dist by auto
      then show "lnk D h3 c = lnk D h1 c"
        using D by (simp add: h3_def h2_def lnk_upd_other reparent_other)
    qed
    have m3a: "lnk D h3 a = Some (ta\<lparr>right := None\<rparr>)"
      unfolding h3_def by (rule lnk_upd_same[OF D m2a])
    have z1: "zip_at (lnk D h3) [] (Br A a Tip)"
      using m3a ta tA dist by (simp add: zip_at_def)
    have z2: "zip_at (lnk D h3) [] B" using tB dist by (simp add: zip_at_def)
    have o2: "only D ?S h1 h2" unfolding h2_def
      by (rule only_reparent_tree[OF D]) auto
    have o3: "only D ?S h1 h3" unfolding h3_def
      by (rule only_upd'[OF D _ o2]) simp
    have o: "only D (set (inorder t)) h h3" using only_trans[OF D o1 o3] unfolding e .
    have i: "inorder (Br A a Tip) @ inorder B = inorder t" using e by simp
    have k1': "\<forall>c \<in> set (inorder (Br A a Tip)). \<not> cmp x (key D h c)"
      using nA' False by auto
    have k2': "\<forall>c \<in> set (inorder B). cmp x (key D h c)" using nB by blast
    show ?thesis using run z1 z2 i k1' k2' o by blast
  next
    case True
    define h2 where "h2 = reparent D (rootp A) None h1"
    define h3 where "h3 = upd D a (ta\<lparr>left := None\<rparr>) h2"
    have aA: "a \<notin> set (inorder A)" using dist by auto
    have m2a: "lnk D h2 a = Some ta" using ta reparent_other[OF D aA] by (simp add: h2_def)
    have run: "split_node fuel D (rootp t) x cmp h = Inr ((rootp A, rootp (Br Tip a B)), h3)"
      using ne f(1) t1 live k1 True ta m2a set_parent_tree[OF tr(1)]
      by (simp add: split_node_def get_value_live get_left_lnk put_left_lnk
          h2_def[symmetric] h3_def[symmetric])
    have tA2: "tree_at (lnk D h2) None A"
      unfolding h2_def by (rule reparent_tree[OF D tr(1)]) (use dist in auto)
    have tA: "tree_at (lnk D h3) None A"
      by (rule tree_at_keep[OF tA2]) (use aA D in \<open>auto simp: h3_def lnk_upd\<close>)
    have tB: "tree_at (lnk D h3) (Some a) B"
    proof (rule tree_at_keep[OF tr(2)])
      fix c assume c: "c \<in> set (inorder B)"
      then have "c \<noteq> a" "c \<notin> set (inorder A)" using dist by auto
      then show "lnk D h3 c = lnk D h1 c"
        using D by (simp add: h3_def h2_def lnk_upd_other reparent_other)
    qed
    have m3a: "lnk D h3 a = Some (ta\<lparr>left := None\<rparr>)"
      unfolding h3_def by (rule lnk_upd_same[OF D m2a])
    have z1: "zip_at (lnk D h3) [] A" using tA dist by (simp add: zip_at_def)
    have z2: "zip_at (lnk D h3) [] (Br Tip a B)"
      using m3a ta tB dist by (simp add: zip_at_def)
    have o2: "only D ?S h1 h2" unfolding h2_def
      by (rule only_reparent_tree[OF D]) auto
    have o3: "only D ?S h1 h3" unfolding h3_def
      by (rule only_upd'[OF D _ o2]) simp
    have o: "only D (set (inorder t)) h h3" using only_trans[OF D o1 o3] unfolding e .
    have i: "inorder A @ inorder (Br Tip a B) = inorder t" using e by simp
    have k1': "\<forall>c \<in> set (inorder A). \<not> cmp x (key D h c)"
      using nA' by blast
    have k2': "\<forall>c \<in> set (inorder (Br Tip a B)). cmp x (key D h c)" using nB True by auto
    show ?thesis using run z1 z2 i k1' k2' o by blast
  qed
qed

lemma only_lnk_frame: "only D S h h' \<Longrightarrow> c \<notin> S \<Longrightarrow> lnk D' h' c = lnk D' h c"
  by (simp add: lnk_def only_frame)

lemma insert_node_spec:
  assumes D: "lens D" and so: "strict_total cmp" and z: "zip_at (lnk D h) [] t"
    and b: "bst cmp (key D h) t"
    and fuel: "length (inorder t) < fuel"
    and n: "lnk D h n = Some tn" "parent tn = None" and nt: "n \<notin> set (inorder t)"
  shows "\<exists>h' t1 t2. insert_node fuel D (rootp t) (Some n) cmp h = Inr (Some n, h') \<and>
           zip_at (lnk D h') [] (Br t1 n t2) \<and> inorder t1 @ inorder t2 = inorder t \<and>
           (\<forall>c \<in> set (inorder t1). \<not> cmp (key D h n) (key D h c)) \<and>
           (\<forall>c \<in> set (inorder t2). cmp (key D h n) (key D h c)) \<and>
           only D (insert n (set (inorder t))) h h'"
proof -
  let ?S = "insert n (set (inorder t))"
  from split_node_spec[OF D so z b fuel, of "key D h n"] obtain h1 t1 t2 where
    s: "split_node fuel D (rootp t) (key D h n) cmp h = Inr ((rootp t1, rootp t2), h1)"
      "zip_at (lnk D h1) [] t1" "zip_at (lnk D h1) [] t2"
      "inorder t1 @ inorder t2 = inorder t"
      "\<forall>c \<in> set (inorder t1). \<not> cmp (key D h n) (key D h c)"
      "\<forall>c \<in> set (inorder t2). cmp (key D h n) (key D h c)"
      "only D (set (inorder t)) h h1" by blast
  have dist: "distinct (inorder t1 @ inorder t2)" using z s(4) by (simp add: zip_at_def)
  have n12: "n \<notin> set (inorder t1)" "n \<notin> set (inorder t2)"
    using nt s(4)[symmetric] by auto
  have m1n: "lnk D h1 n = Some tn"
    using only_lnk_frame[OF s(7) nt, where D' = D] n(1) by simp
  have t1_1: "tree_at (lnk D h1) None t1" and t2_1: "tree_at (lnk D h1) None t2"
    using s(2,3) by (auto simp: zip_at_def)
  define h2 where "h2 = upd D n (tn\<lparr>left := rootp t1\<rparr>) h1"
  define h3 where "h3 = upd D n (tn\<lparr>left := rootp t1, right := rootp t2\<rparr>) h2"
  define h4 where "h4 = reparent D (rootp t1) (Some n) h3"
  define h5 where "h5 = reparent D (rootp t2) (Some n) h4"
  have m2n: "lnk D h2 n = Some (tn\<lparr>left := rootp t1\<rparr>)"
    unfolding h2_def by (rule lnk_upd_same[OF D m1n])
  have m3n: "lnk D h3 n = Some (tn\<lparr>left := rootp t1, right := rootp t2\<rparr>)"
    unfolding h3_def by (rule lnk_upd_same[OF D m2n])
  have o3: "\<And>c. c \<noteq> n \<Longrightarrow> lnk D h3 c = lnk D h1 c"
    using D by (simp add: h3_def h2_def lnk_upd_other)
  have t1_3: "tree_at (lnk D h3) None t1"
  proof (rule tree_at_keep[OF t1_1])
    fix c assume "c \<in> set (inorder t1)"
    then have "c \<noteq> n" using n12 by auto
    then show "lnk D h3 c = lnk D h1 c" by (rule o3)
  qed
  have t2_3: "tree_at (lnk D h3) None t2"
  proof (rule tree_at_keep[OF t2_1])
    fix c assume "c \<in> set (inorder t2)"
    then have "c \<noteq> n" using n12 by auto
    then show "lnk D h3 c = lnk D h1 c" by (rule o3)
  qed
  have t1_4: "tree_at (lnk D h4) (Some n) t1"
    unfolding h4_def by (rule reparent_tree[OF D t1_3]) (use dist in auto)
  have t2_4: "tree_at (lnk D h4) None t2"
  proof (rule tree_at_keep[OF t2_3])
    fix c assume "c \<in> set (inorder t2)"
    then have "c \<notin> set (inorder t1)" using dist by auto
    then show "lnk D h4 c = lnk D h3 c" unfolding h4_def by (rule reparent_other[OF D])
  qed
  have t2_5: "tree_at (lnk D h5) (Some n) t2"
    unfolding h5_def by (rule reparent_tree[OF D t2_4]) (use dist in auto)
  have t1_5: "tree_at (lnk D h5) (Some n) t1"
  proof (rule tree_at_keep[OF t1_4])
    fix c assume "c \<in> set (inorder t1)"
    then have "c \<notin> set (inorder t2)" using dist by auto
    then show "lnk D h5 c = lnk D h4 c" unfolding h5_def by (rule reparent_other[OF D])
  qed
  have m5n: "lnk D h5 n = Some (tn\<lparr>left := rootp t1, right := rootp t2\<rparr>)"
    using m3n reparent_other[OF D n12(1)] reparent_other[OF D n12(2)]
    by (simp add: h5_def h4_def)
  have live: "h n \<noteq> None" using n lnk_live by blast
  have run: "insert_node fuel D (rootp t) (Some n) cmp h = Inr (Some n, h5)"
    using live s(1) m1n m2n set_parent_tree[OF t1_3] set_parent_tree[OF t2_4]
    by (simp add: insert_node_def get_value_live put_left_lnk put_right_lnk
        h2_def[symmetric] h3_def[symmetric] h4_def[symmetric] h5_def[symmetric])
  have zz: "zip_at (lnk D h5) [] (Br t1 n t2)"
    using m5n n(2) t1_5 t2_5 dist n12 by (simp add: zip_at_def)
  have o1: "only D ?S h h1" by (rule only_mono[OF s(7)]) auto
  have o2: "only D ?S h h2" unfolding h2_def by (rule only_upd'[OF D _ o1]) simp
  have o3': "only D ?S h h3" unfolding h3_def by (rule only_upd'[OF D _ o2]) simp
  have o4: "only D ?S h h4" unfolding h4_def
    by (rule only_reparent[OF D _ o3']) (use rootp_in[of t1] s(4)[symmetric] in auto)
  have o5: "only D ?S h h5" unfolding h5_def
    by (rule only_reparent[OF D _ o4]) (use rootp_in[of t2] s(4)[symmetric] in auto)
  show ?thesis using run zz s(4,5,6) o5 by blast
qed



lemma count_incr: "unat (c :: 64 word) + 1 < 2 ^ 64 \<Longrightarrow> unat (c + 1) = unat c + 1"
  using unat_add_lem[of c 1] by simp


lemma near_present:
  assumes "strict_total cmp" "near cmp k x t"
  shows "x \<in> k ` set (inorder t) \<longleftrightarrow> (\<exists>A a B. t = Br A a B \<and> k a = x)"
proof (cases t)
  case Tip
  then show ?thesis by simp
next
  case (Br A a B)
  have "\<And>c. c \<in> set (inorder t) \<Longrightarrow> k c = x \<Longrightarrow> c = a"
    using near_hit[OF assms(1) assms(2)[unfolded Br]] Br by simp
  then show ?thesis using Br by force
qed

lemma root_check:
  assumes so: "strict_total cmp" and z: "zip_at (lnk D h) [] t"
    and nr: "near cmp (key D h) x t"
  shows "orelse (Inr (rootp t = None)) (bind (get_value D h (rootp t)) (\<lambda>v. Inr (\<not> v = x)))
           = Inr (x \<notin> key D h ` set (inorder t))"
proof (cases t)
  case Tip
  then show ?thesis by (simp add: orelse_def)
next
  case (Br A a B)
  have live: "h a \<noteq> None" using zip_live[OF z] Br by simp
  show ?thesis using near_present[OF so nr] Br live
    by (simp add: orelse_def get_value_live)
qed


lemma bst_agree:
  "(\<And>c. c \<in> set (inorder t) \<Longrightarrow> k' c = k c) \<Longrightarrow> bst cmp k' t = bst cmp k t"
proof -
  assume "\<And>c. c \<in> set (inorder t) \<Longrightarrow> k' c = k c"
  then have "map k' (inorder t) = map k (inorder t)" by simp
  then show ?thesis by (simp only: bst_def)
qed

lemma zip_keep:
  "zip_at m [] t \<Longrightarrow> (\<And>c. c \<in> set (inorder t) \<Longrightarrow> m' c = m c) \<Longrightarrow> zip_at m' [] t"
  using tree_at_keep[of m None t m'] by (simp add: zip_at_def)

lemma other_side:
  assumes I: "indep D D'" and o: "only D S h h'"
    and z: "zip_at (lnk D' h) [] t" and b: "bst cmp (key D' h) t"
  shows "zip_at (lnk D' h') [] t" "bst cmp (key D' h') t"
  using only_other_lnk[OF I o] only_other_key[OF I o] z b by simp_all

lemma bst_split:
  assumes "bst cmp k t" "inorder t1 @ inorder t2 = inorder t"
    "\<forall>c \<in> set (inorder t1). cmp (k c) x" "\<forall>c \<in> set (inorder t2). cmp x (k c)" "k n = x"
  shows "bst cmp k (Br t1 n t2)"
proof -
  have "sorted_wrt cmp (map k (inorder t1) @ map k (inorder t2))"
    using assms(1) unfolding bst_def assms(2)[symmetric] by simp
  then show ?thesis using assms(3,4,5)
    by (auto simp: bst_def sorted_wrt_append)
qed

lemma insert_by_values_spec:
  fixes b :: "('l, 'r) bimap"
  assumes inv: "bimap_inv (b, h) lt rt" and fuel: "length (inorder lt) < fuel"
    and fresh: "h a = None" and room: "length (inorder lt) + 1 < 2 ^ 64"
  shows "if l \<in> fst ` pairs h lt \<or> r \<in> snd ` pairs h lt
         then \<exists>b' h' lt' rt'. insert_by_values fuel a l r (b, h) = Inr (None, b', h') \<and>
                bimap_inv (b', h') lt' rt' \<and> (\<forall>c. (h' c = None) = (h c = None)) \<and>
                elements_count b' = elements_count b \<and> pairs h' lt' = pairs h lt \<and>
                inorder lt' = inorder lt \<and>
                left_compare b' = left_compare b \<and> right_compare b' = right_compare b
         else \<exists>b' h' lt' rt'. insert_by_values fuel a l r (b, h) = Inr (Some a, b', h') \<and>
                bimap_inv (b', h') lt' rt' \<and> (\<forall>c. (h' c = None) = (h c = None \<and> c \<noteq> a)) \<and>
                elements_count b' = elements_count b + 1 \<and>
                pairs h' lt' = insert (l, r) (pairs h lt) \<and>
                set (inorder lt') = insert a (set (inorder lt)) \<and>
                left_root b' = Some a \<and> right_root b' = Some a \<and>
                key left_descriptor_t h' a = l \<and> key right_descriptor_t h' a = r \<and>
                left_compare b' = left_compare b \<and> right_compare b' = right_compare b"
proof -
  let ?L = "left_descriptor_t :: (('l, 'r) node_t, 'l) descriptor"
  let ?R = "right_descriptor_t :: (('l, 'r) node_t, 'r) descriptor"
  let ?lc = "left_compare b"
  let ?rc = "right_compare b"
  have zl: "zip_at (lnk ?L h) [] lt" and bl: "bst ?lc (key ?L h) lt"
    and rl: "left_root b = rootp lt" and sl: "strict_total ?lc"
    and sr: "strict_total ?rc" and cnt: "unat (elements_count b) = length (inorder lt)"
    using inv by (auto simp: bimap_inv_def)
  \<comment> \<open>the two uniqueness probes\<close>
  from find_node_top[OF lens_left sl zl bl fuel, of l] obtain h1 lt1 where
    f1: "find_node fuel ?L (rootp lt) l ?lc h = Inr (rootp lt1, h1)"
      "zip_at (lnk ?L h1) [] lt1" "inorder lt1 = inorder lt"
      "only ?L (set (inorder lt)) h h1" "near ?lc (key ?L h) l lt1" by blast
  let ?b1 = "b\<lparr>left_root := rootp lt1\<rparr>"
  note inv1 = inv_left_op[OF inv f1(4,2,3)]
  have zr1: "zip_at (lnk ?R h1) [] rt" and br1: "bst ?rc (key ?R h1) rt"
    and rr1: "right_root ?b1 = rootp rt"
    using inv1(1) by (auto simp: bimap_inv_def)
  have fuelr: "length (inorder rt) < fuel" using fuel inv_lengths[OF inv] by simp
  from find_node_top[OF lens_right sr zr1 br1 fuelr, of r] obtain h2 rt1 where
    f2: "find_node fuel ?R (rootp rt) r ?rc h1 = Inr (rootp rt1, h2)"
      "zip_at (lnk ?R h2) [] rt1" "inorder rt1 = inorder rt"
      "only ?R (set (inorder rt)) h1 h2" "near ?rc (key ?R h1) r rt1" by blast
  let ?b2 = "b\<lparr>left_root := rootp lt1, right_root := rootp rt1\<rparr>"
  have inv2: "bimap_inv (?b2, h2) lt1 rt1" and p2: "pairs h2 lt1 = pairs h lt"
    using inv_right_op[OF inv1(1) f2(4,2,3)] inv1(2) by simp_all
  have zl2: "zip_at (lnk ?L h2) [] lt1" and bl2: "bst ?lc (key ?L h2) lt1"
    and br2: "bst ?rc (key ?R h2) rt1" and se2: "set (inorder lt1) = set (inorder rt1)"
    using inv2 by (auto simp: bimap_inv_def)
  have kl2: "key ?L h2 = key ?L h"
    using only_other_key[OF indep_right_left f2(4)] only_key[OF lens_left f1(4)] by simp
  have kr2: "key ?R h2 = key ?R h1" using only_key[OF lens_right f2(4)] .
  have kr1: "key ?R h1 = key ?R h" using only_other_key[OF indep_left_right f1(4)] .
  have dom2: "\<And>c. (h2 c = None) = (h c = None)"
    using only_dom[OF f1(4)] only_dom[OF f2(4)] by simp
  have nl: "near ?lc (key ?L h2) l lt1" using f1(5) kl2 by simp
  have nr: "near ?rc (key ?R h2) r rt1" using f2(5) kr2 by simp
  have pl: "(l \<in> fst ` pairs h lt) = (l \<in> key ?L h2 ` set (inorder lt1))"
    unfolding p2[symmetric] by (force simp: pairs_def)
  have pr: "(r \<in> snd ` pairs h lt) = (r \<in> key ?R h2 ` set (inorder rt1))"
    unfolding p2[symmetric] se2[symmetric] by (force simp: pairs_def)
  have chk: "andalso
       (orelse (Inr (rootp lt1 = None))
          (bind (get_value ?L h2 (rootp lt1)) (\<lambda>v. Inr (\<not> v = l))))
       (orelse (Inr (rootp rt1 = None))
          (bind (get_value ?R h2 (rootp rt1)) (\<lambda>v. Inr (\<not> v = r))))
     = Inr (\<not> (l \<in> fst ` pairs h lt \<or> r \<in> snd ` pairs h lt))"
    unfolding root_check[OF sl zl2 nl] root_check[OF sr f2(2) nr] pl pr
    by (simp add: andalso_def)
  show ?thesis
  proof (cases "l \<in> fst ` pairs h lt \<or> r \<in> snd ` pairs h lt")
    case True
    have run: "insert_by_values fuel a l r (b, h) = Inr (None, ?b2, h2)"
      using f1(1) f2(1) rl rr1 chk True
      by (simp add: insert_by_values_def Let_def)
    have "\<exists>b' h' lt' rt'. insert_by_values fuel a l r (b, h) = Inr (None, b', h') \<and>
                bimap_inv (b', h') lt' rt' \<and> (\<forall>c. (h' c = None) = (h c = None)) \<and>
                elements_count b' = elements_count b \<and> pairs h' lt' = pairs h lt \<and>
                inorder lt' = inorder lt \<and>
                left_compare b' = left_compare b \<and> right_compare b' = right_compare b"
      apply (rule exI[of _ ?b2], rule exI[of _ h2], rule exI[of _ lt1], rule exI[of _ rt1])
      using run inv2 dom2 p2 f1(3) by simp
    then show ?thesis using True by simp
  next
    case False
    then have la: "\<And>c. c \<in> set (inorder lt1) \<Longrightarrow> key ?L h2 c \<noteq> l"
      and ra: "\<And>c. c \<in> set (inorder rt1) \<Longrightarrow> key ?R h2 c \<noteq> r"
      using pl pr by auto
    define h3 where "h3 = h2(a \<mapsto> node_init l r)"
    have h2a: "h2 a = None" using fresh dom2 by simp
    have a_lt: "a \<notin> set (inorder lt1)" using zip_live[OF zl2] h2a by blast
    have a_rt: "a \<notin> set (inorder rt1)" using a_lt se2 by simp
    have l3: "\<And>c. c \<noteq> a \<Longrightarrow> lnk ?L h3 c = lnk ?L h2 c"
      and r3: "\<And>c. c \<noteq> a \<Longrightarrow> lnk ?R h3 c = lnk ?R h2 c"
      by (simp_all add: h3_def lnk_def)
    have l3a: "lnk ?L h3 a = Some tree_node_init" and r3a: "lnk ?R h3 a = Some tree_node_init"
      by (simp_all add: h3_def lnk_def node_init_def left_descriptor_t_def
          right_descriptor_t_def)
    have kl3: "\<And>c. c \<noteq> a \<Longrightarrow> key ?L h3 c = key ?L h2 c"
      and kr3: "\<And>c. c \<noteq> a \<Longrightarrow> key ?R h3 c = key ?R h2 c"
      by (simp_all add: h3_def key_def)
    have kl3a: "key ?L h3 a = l" and kr3a: "key ?R h3 a = r"
      by (simp_all add: h3_def key_def node_init_def left_descriptor_t_def
          right_descriptor_t_def)
    have ne_l: "\<And>c. c \<in> set (inorder lt1) \<Longrightarrow> c \<noteq> a" using a_lt by blast
    have ne_r: "\<And>c. c \<in> set (inorder rt1) \<Longrightarrow> c \<noteq> a" using a_rt by blast
    have zl3: "zip_at (lnk ?L h3) [] lt1"
      by (rule zip_keep[OF zl2]) (rule l3, rule ne_l)
    have zr3: "zip_at (lnk ?R h3) [] rt1"
      by (rule zip_keep[OF f2(2)]) (rule r3, rule ne_r)
    have "bst ?lc (key ?L h3) lt1 = bst ?lc (key ?L h2) lt1"
      by (rule bst_agree) (rule kl3, rule ne_l)
    then have bl3: "bst ?lc (key ?L h3) lt1" using bl2 by simp
    have "bst ?rc (key ?R h3) rt1 = bst ?rc (key ?R h2) rt1"
      by (rule bst_agree) (rule kr3, rule ne_r)
    then have br3: "bst ?rc (key ?R h3) rt1" using br2 by simp
    have fl: "length (inorder lt1) < fuel" using fuel f1(3) by simp
    have fr: "length (inorder rt1) < fuel" using fuelr f2(3) by simp
    have pn: "parent tree_node_init = None" by (simp add: tree_node_init_def)
    \<comment> \<open>splice into the Left tree\<close>
    from insert_node_spec[OF lens_left sl zl3 bl3 fl l3a pn a_lt] obtain h4 t1 t2 where
      i1: "insert_node fuel ?L (rootp lt1) (Some a) ?lc h3 = Inr (Some a, h4)"
        "zip_at (lnk ?L h4) [] (Br t1 a t2)" "inorder t1 @ inorder t2 = inorder lt1"
        "\<forall>c \<in> set (inorder t1). \<not> ?lc (key ?L h3 a) (key ?L h3 c)"
        "\<forall>c \<in> set (inorder t2). ?lc (key ?L h3 a) (key ?L h3 c)"
        "only ?L (insert a (set (inorder lt1))) h3 h4" by blast
    have zr4: "zip_at (lnk ?R h4) [] rt1" and br4: "bst ?rc (key ?R h4) rt1"
      using other_side[OF indep_left_right i1(6) zr3 br3] by simp_all
    have r4a: "lnk ?R h4 a = Some tree_node_init"
      using only_other_lnk[OF indep_left_right i1(6)] r3a by simp
    \<comment> \<open>splice into the Right tree\<close>
    from insert_node_spec[OF lens_right sr zr4 br4 fr r4a pn a_rt] obtain h5 u1 u2 where
      i2: "insert_node fuel ?R (rootp rt1) (Some a) ?rc h4 = Inr (Some a, h5)"
        "zip_at (lnk ?R h5) [] (Br u1 a u2)" "inorder u1 @ inorder u2 = inorder rt1"
        "\<forall>c \<in> set (inorder u1). \<not> ?rc (key ?R h4 a) (key ?R h4 c)"
        "\<forall>c \<in> set (inorder u2). ?rc (key ?R h4 a) (key ?R h4 c)"
        "only ?R (insert a (set (inorder rt1))) h4 h5" by blast
    have kl5: "key ?L h5 = key ?L h3"
      using only_other_key[OF indep_right_left i2(6)] only_key[OF lens_left i1(6)] by simp
    have kr4: "key ?R h4 = key ?R h3" using only_other_key[OF indep_left_right i1(6)] .
    have kr5: "key ?R h5 = key ?R h3" using only_key[OF lens_right i2(6)] kr4 by simp
    have zl5: "zip_at (lnk ?L h5) [] (Br t1 a t2)"
      using only_other_lnk[OF indep_right_left i2(6)] i1(2) by simp
    let ?b5 = "b\<lparr>left_root := Some a, right_root := Some a,
                  elements_count := elements_count b + 1\<rparr>"
    have run: "insert_by_values fuel a l r (b, h) = Inr (Some a, ?b5, h5)"
      using f1(1) f2(1) rl rr1 chk False i1(1) i2(1)
      by (simp add: insert_by_values_def Let_def alloc_node_def h3_def[symmetric])
    have in1: "\<And>c. c \<in> set (inorder t1) \<Longrightarrow> c \<in> set (inorder lt1)"
      and in2: "\<And>c. c \<in> set (inorder t2) \<Longrightarrow> c \<in> set (inorder lt1)"
      using i1(3)[symmetric] by auto
    have in3: "\<And>c. c \<in> set (inorder u1) \<Longrightarrow> c \<in> set (inorder rt1)"
      and in4: "\<And>c. c \<in> set (inorder u2) \<Longrightarrow> c \<in> set (inorder rt1)"
      using i2(3)[symmetric] by auto
    have lt_l: "\<forall>c \<in> set (inorder t1). ?lc (key ?L h3 c) l"
    proof
      fix c assume c: "c \<in> set (inorder t1)"
      then have "c \<noteq> a" using in1 a_lt by blast
      then have ne: "key ?L h3 c \<noteq> l" using kl3 la in1[OF c] by simp
      have ng: "\<not> ?lc l (key ?L h3 c)" using i1(4) c kl3a by auto
      show "?lc (key ?L h3 c) l" using so_total[OF sl _ ng] ne by blast
    qed
    have gt_l: "\<forall>c \<in> set (inorder t2). ?lc l (key ?L h3 c)" using i1(5) kl3a by simp
    have lt_r: "\<forall>c \<in> set (inorder u1). ?rc (key ?R h3 c) r"
    proof
      fix c assume c: "c \<in> set (inorder u1)"
      then have "c \<noteq> a" using in3 a_rt by blast
      then have ne: "key ?R h3 c \<noteq> r" using kr3 ra in3[OF c] by simp
      have ng: "\<not> ?rc r (key ?R h3 c)" using i2(4) c kr3a kr4 by auto
      show "?rc (key ?R h3 c) r" using so_total[OF sr _ ng] ne by blast
    qed
    have gt_r: "\<forall>c \<in> set (inorder u2). ?rc r (key ?R h3 c)" using i2(5) kr3a kr4 by simp
    have bl5: "bst ?lc (key ?L h5) (Br t1 a t2)"
      unfolding kl5 by (rule bst_split[OF bl3 i1(3) lt_l gt_l kl3a])
    have br5: "bst ?rc (key ?R h5) (Br u1 a u2)"
      unfolding kr5 by (rule bst_split[OF br3 i2(3) lt_r gt_r kr3a])
    have s1: "set (inorder (Br t1 a t2)) = insert a (set (inorder lt1))"
      using i1(3)[symmetric] by auto
    have s2: "set (inorder (Br u1 a u2)) = insert a (set (inorder rt1))"
      using i2(3)[symmetric] by auto
    have len: "length (inorder (Br t1 a t2)) = length (inorder lt) + 1"
      using i1(3) f1(3) by (metis inorder.simps(2) length_append length_Cons add_Suc_right Suc_eq_plus1)
    have c5: "unat (elements_count b + 1) = length (inorder lt) + 1"
      using count_incr[of "elements_count b"] cnt room by simp
    have inv5: "bimap_inv (?b5, h5) (Br t1 a t2) (Br u1 a u2)"
      unfolding bimap_inv_def prod.case
      using zl5 i2(2) s1 s2 se2 bl5 br5 sl sr c5 len by simp
    have dom5: "\<And>c. (h5 c = None) = (h c = None \<and> c \<noteq> a)"
      using only_dom[OF i2(6)] only_dom[OF i1(6)] dom2 fresh by (auto simp: h3_def)
    have p5: "pairs h5 (Br t1 a t2) = insert (l, r) (pairs h lt)"
    proof -
      have "\<And>c. c \<in> set (inorder lt1) \<Longrightarrow>
          (key ?L h5 c, key ?R h5 c) = (key ?L h2 c, key ?R h2 c)"
        using kl5 kr5 kl3[OF ne_l] kr3[OF ne_l] by simp
      then have "(\<lambda>c. (key ?L h5 c, key ?R h5 c)) ` set (inorder lt1) = pairs h2 lt1"
        unfolding pairs_def by (intro image_cong) auto
      then show ?thesis unfolding pairs_def[of h5] s1 using kl5 kr5 kl3a kr3a p2 by simp
    qed
    have s1': "set (inorder (Br t1 a t2)) = insert a (set (inorder lt))" using s1 f1(3) by simp
    have ka: "key ?L h5 a = l" "key ?R h5 a = r" using kl5 kr5 kl3a kr3a by simp_all
    have "\<exists>b' h' lt' rt'. insert_by_values fuel a l r (b, h) = Inr (Some a, b', h') \<and>
                bimap_inv (b', h') lt' rt' \<and> (\<forall>c. (h' c = None) = (h c = None \<and> c \<noteq> a)) \<and>
                elements_count b' = elements_count b + 1 \<and>
                pairs h' lt' = insert (l, r) (pairs h lt) \<and>
                set (inorder lt') = insert a (set (inorder lt)) \<and>
                left_root b' = Some a \<and> right_root b' = Some a \<and>
                key left_descriptor_t h' a = l \<and> key right_descriptor_t h' a = r \<and>
                left_compare b' = left_compare b \<and> right_compare b' = right_compare b"
      apply (rule exI[of _ ?b5], rule exI[of _ h5], rule exI[of _ "Br t1 a t2"],
          rule exI[of _ "Br u1 a u2"])
      using run inv5 dom5 p5 s1' ka by simp
    then show ?thesis using False by simp
  qed
qed














section \<open>Properties\<close>

text \<open>
  C1 (the invariants hold after every sequence of public operations): the code breaks it.
  After \<open>insert(1, 1)\<close> the container is move-constructed into a new object.  The
  new object reports size 1 while its Left tree is empty (its left root is null), and the
  moved-from object reports size 0 while the record is still linked into its Right tree:
  \<open>find_right(1)\<close> on it returns a cursor to the record.
\<close>

theorem move_breaks_count_invariant:
  "(case one_pair of Inl e \<Rightarrow> False
    | Inr (it, b, h) \<Rightarrow>
        (case bimap_move u b of (new, old) \<Rightarrow>
           size_bimap new = 1 \<and> left_root new = None \<and>
           begin_left 3 1 new h = Inl NullDeref \<and>
           size_bimap old = 0 \<and>
           (case find_right 3 0 1 (old, h) of Inl e \<Rightarrow> False
            | Inr (it', old', h') \<Rightarrow> it' = right_iterator 0 (Some 0) \<and> h' 0 \<noteq> None)))"
  unfolding one_pair_def empty_state_def
  by (simp add: insert_pair_def insert_by_values_def bimap_init_def find_node_def
      eval_nat_numeral bind_def andalso_def orelse_def alloc_node_def insert_node_def
      get_value_def get_left_def get_right_def get_parent_def deref_def split_node_def
      put_left_def put_right_def modify_def set_parent_def node_init_def tree_node_init_def
      left_descriptor_t_def right_descriptor_t_def bimap_move_def size_bimap_def
      begin_left_def sink_left_def find_right_def find_element_def splay_def)

text \<open>
  C2 (move construction transfers both roots and the count and leaves the source with
  count 0 and both roots null): the code breaks it.  The constructor reads
  \<open>other.left_root\<close> a second time after it has nulled it and never touches either
  \<open>right_root\<close>.  For the container holding the pair (1, 1): the new object's left root is
  null, its right root is what its storage held before (\<open>right_root u\<close>), and the source's
  right root still points at the record.
\<close>

theorem move_constructor_roots:
  "(case one_pair of Inl e \<Rightarrow> False
    | Inr (it, b, h) \<Rightarrow>
        (case bimap_move u b of (new, old) \<Rightarrow>
           left_root b = Some 0 \<and> right_root b = Some 0 \<and> elements_count b = 1 \<and>
           left_root new = None \<and> right_root new = right_root u \<and> elements_count new = 1 \<and>
           left_root old = None \<and> right_root old = Some 0 \<and> elements_count old = 0))"
  unfolding one_pair_def empty_state_def
  by (simp add: insert_pair_def insert_by_values_def bimap_init_def find_node_def
      eval_nat_numeral bind_def andalso_def orelse_def alloc_node_def insert_node_def
      get_value_def deref_def split_node_def put_left_def put_right_def modify_def
      set_parent_def node_init_def left_descriptor_t_def right_descriptor_t_def
      bimap_move_def)

text \<open>
  C4 (erase by cursor returns a cursor to the in-order successor, or the end sentinel when
  the erased record was the maximum): the code breaks it.  The returned cursor is the new
  root of the side's tree.  After \<open>insert(1, 1)\<close> and \<open>insert(2, 2)\<close>, erasing through the
  cursor to (2, 2), the Left maximum, returns a cursor to the record (1, 1) and not the end
  sentinel; the same happens on the Right side.
\<close>

theorem erase_maximum_returns_predecessor:
  "(case two_pairs of Inl e \<Rightarrow> False
    | Inr (it, s) \<Rightarrow>
        get_value left_descriptor_t (snd s) (node it) = Inr 2 \<and>
        (case erase_left_it 3 0 it s of Inl e \<Rightarrow> False
         | Inr (res, b, h) \<Rightarrow>
             res = left_iterator 0 (Some 0) \<and> \<not> iterator_eq res (end_left 0) \<and>
             iterator_star left_descriptor_t h res = Inr 1 \<and> size_bimap b = 1) \<and>
        (case erase_right_it 3 0 (flip it) s of Inl e \<Rightarrow> False
         | Inr (res, b, h) \<Rightarrow>
             res = right_iterator 0 (Some 0) \<and> \<not> iterator_eq res (end_right 0) \<and>
             iterator_star right_descriptor_t h res = Inr 1 \<and> size_bimap b = 1))"
  unfolding two_pairs_def one_pair_def empty_state_def
  by code_simp

text \<open>
  C9 (\<open>a == b\<close> iff equal sizes and pairwise equal Left sequences, for all containers): the
  code breaks it for two empty containers.  The sizes agree, and \<open>begin_left\<close> then sinks
  left from a null root, which reads through the null pointer.
\<close>

theorem equal_empty_null_deref:
  "equal_bimap (Suc k) this (bimap_init lc rc) that (bimap_init lc' rc') h = Inl NullDeref"
  by (simp add: equal_bimap_def size_bimap_def bimap_init_def begin_left_def sink_left_def
      get_left_def deref_def bind_def)

text \<open>
  C10: converting a cursor to the opposite side and back gives the cursor itself, and the
  two compare equal under \<open>operator==\<close>; this covers the end sentinel, whose node is null.
\<close>

theorem flip_flip:
  "flip (flip it) = it \<and> iterator_eq (flip (flip it)) it"
  by (cases it) (simp add: flip_def iterator_eq_def split: side.split)

text \<open>
  C3, for comparators that are strict total orders (\<open>strict_total\<close>: irreflexive, transitive,
  and any two distinct keys are comparable, as \<open>std::less\<close> and \<open>std::greater\<close> are on a totally
  ordered key type):
  on a well-formed container \<open>insert(l, r)\<close> returns the end cursor exactly when \<open>l\<close> is
  already a Left value or \<open>r\<close> is already a Right value of a live pair.  In that case no
  record is allocated (the set of live addresses is unchanged), the size is unchanged and
  the container holds the same pairs.  Otherwise exactly one record is allocated, at the
  address \<open>a\<close> handed out by the allocator, the size grows by exactly one, the returned
  cursor points at that record, which holds \<open>(l, r)\<close> and is in both trees, and the pairs
  are the old ones plus \<open>(l, r)\<close>.  The address \<open>a\<close> holds no live record before the call,
  and the count does not overflow its 64 bits.  Well-formedness (\<open>bimap_inv\<close>) says that both
  trees are realised in the store over the same records, that each is a search tree under
  its comparator, that both comparators are strict total orders, and that the count is the
  number of records.
\<close>

theorem insert_pair_spec:
  fixes b :: "('l, 'r) bimap"
  assumes inv: "bimap_inv (b, h) lt rt" and fuel: "length (inorder lt) < fuel"
    and fresh: "h a = None" and room: "length (inorder lt) + 1 < 2 ^ 64"
  shows "if l \<in> fst ` pairs h lt \<or> r \<in> snd ` pairs h lt
         then \<exists>b' h' lt' rt'. insert_pair fuel this a l r (b, h) = Inr (end_left this, b', h') \<and>
                bimap_inv (b', h') lt' rt' \<and> (\<forall>c. (h' c = None) = (h c = None)) \<and>
                size_bimap b' = size_bimap b \<and> pairs h' lt' = pairs h lt
         else \<exists>b' h' lt' rt'.
                insert_pair fuel this a l r (b, h) = Inr (left_iterator this (Some a), b', h') \<and>
                \<not> iterator_eq (left_iterator this (Some a)) (end_left this) \<and>
                bimap_inv (b', h') lt' rt' \<and> (\<forall>c. (h' c = None) = (h c = None \<and> c \<noteq> a)) \<and>
                size_bimap b' = size_bimap b + 1 \<and>
                unat (size_bimap b') = unat (size_bimap b) + 1 \<and>
                pairs h' lt' = insert (l, r) (pairs h lt) \<and>
                a \<in> set (inorder lt') \<and> a \<in> set (inorder rt') \<and>
                iterator_star left_descriptor_t h' (left_iterator this (Some a)) = Inr l \<and>
                iterator_star right_descriptor_t h' (flip (left_iterator this (Some a))) = Inr r"
proof (cases "l \<in> fst ` pairs h lt \<or> r \<in> snd ` pairs h lt")
  case True
  from insert_by_values_spec[OF inv fuel fresh room, of l r] True obtain b' h' lt' rt' where
    r: "insert_by_values fuel a l r (b, h) = Inr (None, b', h')" "bimap_inv (b', h') lt' rt'"
      "\<forall>c. (h' c = None) = (h c = None)" "elements_count b' = elements_count b"
      "pairs h' lt' = pairs h lt"
    by auto
  have "insert_pair fuel this a l r (b, h) = Inr (end_left this, b', h')"
    using r(1) by (simp add: insert_pair_def end_left_def)
  then have "\<exists>b' h' lt' rt'. insert_pair fuel this a l r (b, h) = Inr (end_left this, b', h') \<and>
                bimap_inv (b', h') lt' rt' \<and> (\<forall>c. (h' c = None) = (h c = None)) \<and>
                size_bimap b' = size_bimap b \<and> pairs h' lt' = pairs h lt"
    using r(2,3,4,5) unfolding size_bimap_def by blast
  then show ?thesis using True by simp
next
  case False
  from insert_by_values_spec[OF inv fuel fresh room, of l r] False obtain b' h' lt' rt' where
    r: "insert_by_values fuel a l r (b, h) = Inr (Some a, b', h')" "bimap_inv (b', h') lt' rt'"
      "\<forall>c. (h' c = None) = (h c = None \<and> c \<noteq> a)" "elements_count b' = elements_count b + 1"
      "pairs h' lt' = insert (l, r) (pairs h lt)"
      "set (inorder lt') = insert a (set (inorder lt))"
      "key left_descriptor_t h' a = l" "key right_descriptor_t h' a = r"
    by auto
  have run: "insert_pair fuel this a l r (b, h) = Inr (left_iterator this (Some a), b', h')"
    using r(1) by (simp add: insert_pair_def)
  have ne: "\<not> iterator_eq (left_iterator this (Some a)) (end_left this)"
    by (simp add: iterator_eq_def left_iterator_def end_left_def)
  have al: "a \<in> set (inorder lt')" using r(6) by simp
  then have ar: "a \<in> set (inorder rt')" using r(2) by (simp add: bimap_inv_def)
  have live: "h' a \<noteq> None" using r(3) by simp
  have v1: "iterator_star left_descriptor_t h' (left_iterator this (Some a)) = Inr l"
    using live r(7) by (simp add: iterator_star_def left_iterator_def get_value_live)
  have v2: "iterator_star right_descriptor_t h' (flip (left_iterator this (Some a))) = Inr r"
    using live r(8) by (simp add: iterator_star_def left_iterator_def flip_def get_value_live)
  have "unat (elements_count b) = length (inorder lt)" using inv by (simp add: bimap_inv_def)
  then have u: "unat (elements_count b') = unat (elements_count b) + 1"
    using r(4) count_incr[of "elements_count b"] room by simp
  have "\<exists>b' h' lt' rt'.
                insert_pair fuel this a l r (b, h) = Inr (left_iterator this (Some a), b', h') \<and>
                \<not> iterator_eq (left_iterator this (Some a)) (end_left this) \<and>
                bimap_inv (b', h') lt' rt' \<and> (\<forall>c. (h' c = None) = (h c = None \<and> c \<noteq> a)) \<and>
                size_bimap b' = size_bimap b + 1 \<and>
                unat (size_bimap b') = unat (size_bimap b) + 1 \<and>
                pairs h' lt' = insert (l, r) (pairs h lt) \<and>
                a \<in> set (inorder lt') \<and> a \<in> set (inorder rt') \<and>
                iterator_star left_descriptor_t h' (left_iterator this (Some a)) = Inr l \<and>
                iterator_star right_descriptor_t h' (flip (left_iterator this (Some a))) = Inr r"
    apply (rule exI[of _ b'], rule exI[of _ h'], rule exI[of _ lt'], rule exI[of _ rt'])
    using run ne r(2,3,4,5) u al ar v1 v2 unfolding size_bimap_def by simp
  then show ?thesis using False by simp
qed

theorem insert_pair_spec_witness:
  "bimap_inv (two_bimap, two_heap) two_shape two_shape \<and> length (inorder two_shape) < 3 \<and>
   two_heap 2 = None \<and> length (inorder two_shape) + 1 < 2 ^ 64 \<and>
   (\<exists>b' h'. insert_pair 3 0 2 1 5 (two_bimap, two_heap) = Inr (end_left 0, b', h') \<and>
      size_bimap b' = 2) \<and>
   (\<exists>b' h'. insert_pair 3 0 2 3 3 (two_bimap, two_heap) = Inr (left_iterator 0 (Some 2), b', h') \<and>
      size_bimap b' = 3)"
proof -
  have b: "length (inorder two_shape) < 3" by (simp add: two_shape_order)
  have f: "two_heap 2 = None" by (simp add: two_heap_def)
  have r: "length (inorder two_shape) + 1 < 2 ^ 64" by (simp add: two_shape_order)
  have s: "size_bimap two_bimap = 2" by (simp add: size_bimap_def two_bimap_def)
  note t1 = insert_pair_spec[OF two_state_inv b f r, of 1 5 0, unfolded two_state_pairs]
  note t2 = insert_pair_spec[OF two_state_inv b f r, of 3 3 0, unfolded two_state_pairs]
  have 1: "\<exists>b' h'. insert_pair 3 0 2 1 5 (two_bimap, two_heap) = Inr (end_left 0, b', h') \<and>
      size_bimap b' = 2"
    using t1 s by auto
  have 2: "\<exists>b' h'. insert_pair 3 0 2 3 3 (two_bimap, two_heap)
      = Inr (left_iterator 0 (Some 2), b', h') \<and> size_bimap b' = 3"
    using t2 s by auto
  show ?thesis using two_state_inv b f r 1 2 by (intro conjI)
qed

text \<open>
  C3 as stated, for every comparator, fails.  Presence is decided with \<open>==\<close> on the node the
  comparator-guided search ends at.  Under \<open>tens_less\<close>, after \<open>insert(1, 10)\<close> and
  \<open>insert(2, 20)\<close> the record (1, 10) is the first of the Left tree, yet \<open>insert(1, 30)\<close>
  does not return the end cursor: the search for 1 ends at the equivalent key 2, a third
  record is allocated, and two live records have the Left value 1.
\<close>

theorem insert_equivalent_left_key:
  "(case tens_pairs of Inl e \<Rightarrow> False
    | Inr (it, b, h) \<Rightarrow>
        size_bimap b = 2 \<and>
        begin_left 4 0 b h = Inr (left_iterator 0 (Some 0)) \<and>
        iterator_star left_descriptor_t h (left_iterator 0 (Some 0)) = Inr 1 \<and>
        (case insert_pair 4 0 2 1 30 (b, h) of Inl e \<Rightarrow> False
         | Inr (res, b', h') \<Rightarrow>
             res = left_iterator 0 (Some 2) \<and> \<not> iterator_eq res (end_left 0) \<and>
             size_bimap b' = 3 \<and>
             iterator_star left_descriptor_t h' (left_iterator 0 (Some 0)) = Inr 1 \<and>
             iterator_star left_descriptor_t h' res = Inr 1))"
  unfolding tens_pairs_def
  by code_simp

text \<open>
  C6, for comparators that are strict total orders (\<open>strict_total\<close>: irreflexive, transitive,
  and any two distinct keys are comparable, as \<open>std::less\<close> and \<open>std::greater\<close> are on a totally
  ordered key type):
  on a well-formed container \<open>at_left(key)\<close> throws the out-of-range error exactly when
  no live pair has \<open>key\<close> as its Left value, and otherwise returns the Right value paired
  with it; symmetrically for \<open>at_right\<close>.  Hence \<open>at_left(l) = r\<close> and \<open>at_right(r) = l\<close>
  for every live pair \<open>(l, r)\<close>.  The lookups only reshape the trees: the container stays
  well formed and holds the same pairs.  \<open>fuel\<close> bounds the iterations of each loop; any
  bound above the number of records is enough.
\<close>

theorem at_left_at_right:
  assumes inv: "bimap_inv (b, h) lt rt" and fuel: "length (inorder lt) < fuel"
  shows "(l \<notin> fst ` pairs h lt \<longrightarrow> at_left fuel l (b, h) = Inl OutOfRange) \<and>
         (r \<notin> snd ` pairs h lt \<longrightarrow> at_right fuel r (b, h) = Inl OutOfRange) \<and>
         (\<forall>(l', r') \<in> pairs h lt.
            (\<exists>b' h' lt'. at_left fuel l' (b, h) = Inr (r', b', h') \<and>
               bimap_inv (b', h') lt' rt \<and> pairs h' lt' = pairs h lt) \<and>
            (\<exists>b' h' rt'. at_right fuel r' (b, h) = Inr (l', b', h') \<and>
               bimap_inv (b', h') lt rt' \<and> pairs h' lt = pairs h lt))"
proof -
  let ?L = "left_descriptor_t :: (('a, 'b) node_t, 'a) descriptor"
  let ?R = "right_descriptor_t :: (('a, 'b) node_t, 'b) descriptor"
  have zl: "zip_at (lnk ?L h) [] lt" and zr: "zip_at (lnk ?R h) [] rt"
    and bl: "bst (left_compare b) (key ?L h) lt" and br: "bst (right_compare b) (key ?R h) rt"
    and rl: "left_root b = rootp lt" and rr: "right_root b = rootp rt"
    and sl: "strict_total (left_compare b)" and sr: "strict_total (right_compare b)"
    and se: "set (inorder lt) = set (inorder rt)"
    using inv by (auto simp: bimap_inv_def)
  have "length (inorder rt) = length (inorder lt)"
    using se zl zr distinct_card[of "inorder lt"] distinct_card[of "inorder rt"]
    by (simp add: zip_at_def)
  then have fuelr: "length (inorder rt) < fuel" using fuel by simp
  note L = at_element_spec[OF lens_left indep_left_right sl zl bl fuel]
  note R = at_element_spec[OF lens_right indep_right_left sr zr br fuelr]
  have 1: "l \<notin> fst ` pairs h lt \<longrightarrow> at_left fuel l (b, h) = Inl OutOfRange"
  proof
    assume "l \<notin> fst ` pairs h lt"
    then have "l \<notin> key ?L h ` set (inorder lt)" by (force simp: pairs_def)
    then show "at_left fuel l (b, h) = Inl OutOfRange"
      using L[of l] rl by (simp add: at_left_def)
  qed
  have 2: "r \<notin> snd ` pairs h lt \<longrightarrow> at_right fuel r (b, h) = Inl OutOfRange"
  proof
    assume "r \<notin> snd ` pairs h lt"
    then have "r \<notin> key ?R h ` set (inorder rt)" using se by (force simp: pairs_def)
    then show "at_right fuel r (b, h) = Inl OutOfRange"
      using R[of r] rr by (simp add: at_right_def)
  qed
  have 3: "\<forall>(l', r') \<in> pairs h lt.
            (\<exists>b' h' lt'. at_left fuel l' (b, h) = Inr (r', b', h') \<and>
               bimap_inv (b', h') lt' rt \<and> pairs h' lt' = pairs h lt) \<and>
            (\<exists>b' h' rt'. at_right fuel r' (b, h) = Inr (l', b', h') \<and>
               bimap_inv (b', h') lt rt' \<and> pairs h' lt = pairs h lt)"
  proof (clarify, intro conjI)
    fix l' r' assume "(l', r') \<in> pairs h lt"
    then obtain a where a: "a \<in> set (inorder lt)" "key ?L h a = l'" "key ?R h a = r'"
      by (auto simp: pairs_def)
    from L[of l'] a obtain h' t' where
      f: "at_element fuel ?L ?R (rootp lt) l' (left_compare b) h = Inr (r', rootp t', h')"
        "zip_at (lnk ?L h') [] t'" "inorder t' = inorder lt"
        "only ?L (set (inorder lt)) h h'" by blast
    have "at_left fuel l' (b, h) = Inr (r', b\<lparr>left_root := rootp t'\<rparr>, h')"
      using f(1) rl by (simp add: at_left_def)
    then show "\<exists>b' h' lt'. at_left fuel l' (b, h) = Inr (r', b', h') \<and>
               bimap_inv (b', h') lt' rt \<and> pairs h' lt' = pairs h lt"
      using inv_left_op[OF inv f(4,2,3)] by blast
    have a': "a \<in> set (inorder rt)" using a se by simp
    from R[of r'] a a' obtain h' t' where
      g: "at_element fuel ?R ?L (rootp rt) r' (right_compare b) h = Inr (l', rootp t', h')"
        "zip_at (lnk ?R h') [] t'" "inorder t' = inorder rt"
        "only ?R (set (inorder rt)) h h'" by blast
    have "at_right fuel r' (b, h) = Inr (l', b\<lparr>right_root := rootp t'\<rparr>, h')"
      using g(1) rr by (simp add: at_right_def)
    then show "\<exists>b' h' rt'. at_right fuel r' (b, h) = Inr (l', b', h') \<and>
               bimap_inv (b', h') lt rt' \<and> pairs h' lt = pairs h lt"
      using inv_right_op[OF inv g(4,2,3)] by blast
  qed
  show ?thesis using 1 2 3 by blast
qed

theorem at_left_at_right_witness:
  "bimap_inv (two_bimap, zero_heap) two_shape zero_shape \<and> length (inorder two_shape) < 3 \<and>
   at_left 3 5 (two_bimap, zero_heap) = Inl OutOfRange \<and>
   at_right 3 5 (two_bimap, zero_heap) = Inl OutOfRange \<and>
   (\<exists>b' h'. at_left 3 0 (two_bimap, zero_heap) = Inr (7, b', h')) \<and>
   (\<exists>b' h'. at_right 3 7 (two_bimap, zero_heap) = Inr (0, b', h')) \<and>
   (\<exists>b' h'. at_left 3 2 (two_bimap, zero_heap) = Inr (0, b', h')) \<and>
   (\<exists>b' h'. at_right 3 0 (two_bimap, zero_heap) = Inr (2, b', h')) \<and>
   bimap_inv (down_bimap, down_heap) two_shape two_shape \<and>
   at_left 3 4 (down_bimap, down_heap) = Inl OutOfRange \<and>
   (\<exists>b' h'. at_left 3 5 (down_bimap, down_heap) = Inr (9, b', h')) \<and>
   (\<exists>b' h'. at_right 3 4 (down_bimap, down_heap) = Inr (3, b', h'))"
proof -
  have b: "length (inorder two_shape) < 3" by (simp add: two_shape_order)
  note t = at_left_at_right[OF zero_state_inv b, of 5 5, unfolded zero_state_pairs]
  have 1: "at_left 3 5 (two_bimap, zero_heap) = Inl OutOfRange" using t by simp
  have 2: "at_right 3 5 (two_bimap, zero_heap) = Inl OutOfRange" using t by simp
  have 3: "\<exists>b' h'. at_left 3 0 (two_bimap, zero_heap) = Inr (7, b', h')" using t by blast
  have 4: "\<exists>b' h'. at_right 3 7 (two_bimap, zero_heap) = Inr (0, b', h')" using t by blast
  have 5: "\<exists>b' h'. at_left 3 2 (two_bimap, zero_heap) = Inr (0, b', h')" using t by blast
  have 6: "\<exists>b' h'. at_right 3 0 (two_bimap, zero_heap) = Inr (2, b', h')" using t by blast
  note d = at_left_at_right[OF down_state_inv b, of 4 5, unfolded down_state_pairs]
  have 7: "at_left 3 4 (down_bimap, down_heap) = Inl OutOfRange" using d by simp
  have 8: "\<exists>b' h'. at_left 3 5 (down_bimap, down_heap) = Inr (9, b', h')" using d by blast
  have 9: "\<exists>b' h'. at_right 3 4 (down_bimap, down_heap) = Inr (3, b', h')" using d by blast
  show ?thesis using zero_state_inv b 1 2 3 4 5 6 down_state_inv 7 8 9 by (intro conjI)
qed

text \<open>
  C6 as stated, for every comparator, fails.  Under \<open>tens_less\<close>, after \<open>insert(1, 10)\<close> and
  \<open>insert(2, 20)\<close> the pair (1, 10) is live, it is the first of the Left tree, yet
  \<open>at_left(1)\<close> throws: the search for 1 ends at the equivalent key 2, which is not \<open>==\<close> 1.
\<close>

theorem at_left_equivalent_key_throws:
  "(case tens_pairs of Inl e \<Rightarrow> False
    | Inr (it, b, h) \<Rightarrow>
        begin_left 4 0 b h = Inr (left_iterator 0 (Some 0)) \<and>
        iterator_star left_descriptor_t h (left_iterator 0 (Some 0)) = Inr 1 \<and>
        iterator_star right_descriptor_t h (flip (left_iterator 0 (Some 0))) = Inr 10 \<and>
        (case at_left 4 1 (b, h) of Inl e \<Rightarrow> e = OutOfRange | Inr res \<Rightarrow> False))"
  unfolding tens_pairs_def
  by code_simp

text \<open>
  C7, for comparators that are strict total orders (\<open>strict_total\<close>: irreflexive, transitive,
  and any two distinct keys are comparable, as \<open>std::less\<close> and \<open>std::greater\<close> are on a totally
  ordered key type):
  on a well-formed container \<open>lower_bound_left(k)\<close> returns a cursor to the first record
  in Left order whose Left value is not less than \<open>k\<close> under the Left comparator, and
  \<open>upper_bound_left(k)\<close> a cursor to the first record whose Left value is greater than \<open>k\<close>
  under the Left comparator; each returns the end sentinel
  (the null node) when there is no such record.  \<open>lower_bound_right\<close> and
  \<open>upper_bound_right\<close> do the same in Right order.  The list \<open>inorder lt\<close> is the Left
  order and \<open>inorder rt\<close> the Right order; the queries keep both and the pairs.
\<close>

theorem bounds_left_right:
  assumes inv: "bimap_inv (b, h) lt rt" and fuel: "length (inorder lt) < fuel"
  shows "(\<exists>b' h' lt'. lower_bound_left fuel this k (b, h)
             = Inr (left_iterator this
                 (List.find (\<lambda>a. \<not> left_compare b (key left_descriptor_t h a) k) (inorder lt)), b', h') \<and>
            bimap_inv (b', h') lt' rt \<and> inorder lt' = inorder lt \<and> pairs h' lt' = pairs h lt) \<and>
         (\<exists>b' h' lt'. upper_bound_left fuel this k (b, h)
             = Inr (left_iterator this
                 (List.find (\<lambda>a. left_compare b k (key left_descriptor_t h a)) (inorder lt)), b', h') \<and>
            bimap_inv (b', h') lt' rt \<and> inorder lt' = inorder lt \<and> pairs h' lt' = pairs h lt) \<and>
         (\<exists>b' h' rt'. lower_bound_right fuel this j (b, h)
             = Inr (right_iterator this
                 (List.find (\<lambda>a. \<not> right_compare b (key right_descriptor_t h a) j) (inorder rt)), b', h') \<and>
            bimap_inv (b', h') lt rt' \<and> inorder rt' = inorder rt \<and> pairs h' lt = pairs h lt) \<and>
         (\<exists>b' h' rt'. upper_bound_right fuel this j (b, h)
             = Inr (right_iterator this
                 (List.find (\<lambda>a. right_compare b j (key right_descriptor_t h a)) (inorder rt)), b', h') \<and>
            bimap_inv (b', h') lt rt' \<and> inorder rt' = inorder rt \<and> pairs h' lt = pairs h lt)"
proof -
  let ?L = "left_descriptor_t :: (('a, 'b) node_t, 'a) descriptor"
  let ?R = "right_descriptor_t :: (('a, 'b) node_t, 'b) descriptor"
  have zl: "zip_at (lnk ?L h) [] lt" and zr: "zip_at (lnk ?R h) [] rt"
    and bl: "bst (left_compare b) (key ?L h) lt" and br: "bst (right_compare b) (key ?R h) rt"
    and rl: "left_root b = rootp lt" and rr: "right_root b = rootp rt"
    and sl: "strict_total (left_compare b)" and sr: "strict_total (right_compare b)"
    using inv by (auto simp: bimap_inv_def)
  have fuelr: "length (inorder rt) < fuel" using fuel inv_lengths[OF inv] by simp
  have 1: "\<exists>b' h' lt'. lower_bound_left fuel this k (b, h)
             = Inr (left_iterator this
                 (List.find (\<lambda>a. \<not> left_compare b (key ?L h a) k) (inorder lt)), b', h') \<and>
            bimap_inv (b', h') lt' rt \<and> inorder lt' = inorder lt \<and> pairs h' lt' = pairs h lt"
  proof -
    from lower_bound_spec[OF lens_left sl zl bl fuel, of k] obtain h' t' where
      f: "lower_bound fuel ?L (rootp lt) k (left_compare b) h
            = Inr (List.find (\<lambda>a. \<not> left_compare b (key ?L h a) k) (inorder lt), rootp t', h')"
        "zip_at (lnk ?L h') [] t'" "inorder t' = inorder lt"
        "only ?L (set (inorder lt)) h h'" by blast
    have "lower_bound_left fuel this k (b, h)
        = Inr (left_iterator this (List.find (\<lambda>a. \<not> left_compare b (key ?L h a) k) (inorder lt)),
               b\<lparr>left_root := rootp t'\<rparr>, h')"
      using f(1) rl by (simp add: lower_bound_left_def)
    then show ?thesis using inv_left_op[OF inv f(4,2,3)] f(3) by blast
  qed
  have 2: "\<exists>b' h' lt'. upper_bound_left fuel this k (b, h)
             = Inr (left_iterator this
                 (List.find (\<lambda>a. left_compare b k (key ?L h a)) (inorder lt)), b', h') \<and>
            bimap_inv (b', h') lt' rt \<and> inorder lt' = inorder lt \<and> pairs h' lt' = pairs h lt"
  proof -
    from upper_bound_spec[OF lens_left sl zl bl fuel, of k] obtain h' t' where
      f: "upper_bound fuel ?L (rootp lt) k (left_compare b) h
            = Inr (List.find (\<lambda>a. left_compare b k (key ?L h a)) (inorder lt), rootp t', h')"
        "zip_at (lnk ?L h') [] t'" "inorder t' = inorder lt"
        "only ?L (set (inorder lt)) h h'" by blast
    have "upper_bound_left fuel this k (b, h)
        = Inr (left_iterator this (List.find (\<lambda>a. left_compare b k (key ?L h a)) (inorder lt)),
               b\<lparr>left_root := rootp t'\<rparr>, h')"
      using f(1) rl by (simp add: upper_bound_left_def)
    then show ?thesis using inv_left_op[OF inv f(4,2,3)] f(3) by blast
  qed
  have 3: "\<exists>b' h' rt'. lower_bound_right fuel this j (b, h)
             = Inr (right_iterator this
                 (List.find (\<lambda>a. \<not> right_compare b (key ?R h a) j) (inorder rt)), b', h') \<and>
            bimap_inv (b', h') lt rt' \<and> inorder rt' = inorder rt \<and> pairs h' lt = pairs h lt"
  proof -
    from lower_bound_spec[OF lens_right sr zr br fuelr, of j] obtain h' t' where
      f: "lower_bound fuel ?R (rootp rt) j (right_compare b) h
            = Inr (List.find (\<lambda>a. \<not> right_compare b (key ?R h a) j) (inorder rt), rootp t', h')"
        "zip_at (lnk ?R h') [] t'" "inorder t' = inorder rt"
        "only ?R (set (inorder rt)) h h'" by blast
    have "lower_bound_right fuel this j (b, h)
        = Inr (right_iterator this (List.find (\<lambda>a. \<not> right_compare b (key ?R h a) j) (inorder rt)),
               b\<lparr>right_root := rootp t'\<rparr>, h')"
      using f(1) rr by (simp add: lower_bound_right_def)
    then show ?thesis using inv_right_op[OF inv f(4,2,3)] f(3) by blast
  qed
  have 4: "\<exists>b' h' rt'. upper_bound_right fuel this j (b, h)
             = Inr (right_iterator this
                 (List.find (\<lambda>a. right_compare b j (key ?R h a)) (inorder rt)), b', h') \<and>
            bimap_inv (b', h') lt rt' \<and> inorder rt' = inorder rt \<and> pairs h' lt = pairs h lt"
  proof -
    from upper_bound_spec[OF lens_right sr zr br fuelr, of j] obtain h' t' where
      f: "upper_bound fuel ?R (rootp rt) j (right_compare b) h
            = Inr (List.find (\<lambda>a. right_compare b j (key ?R h a)) (inorder rt), rootp t', h')"
        "zip_at (lnk ?R h') [] t'" "inorder t' = inorder rt"
        "only ?R (set (inorder rt)) h h'" by blast
    have "upper_bound_right fuel this j (b, h)
        = Inr (right_iterator this (List.find (\<lambda>a. right_compare b j (key ?R h a)) (inorder rt)),
               b\<lparr>right_root := rootp t'\<rparr>, h')"
      using f(1) rr by (simp add: upper_bound_right_def)
    then show ?thesis using inv_right_op[OF inv f(4,2,3)] f(3) by blast
  qed
  show ?thesis using 1 2 3 4 by (intro conjI)
qed

theorem bounds_left_right_witness:
  "bimap_inv (two_bimap, two_heap) two_shape two_shape \<and> length (inorder two_shape) < 3 \<and>
   (\<exists>b' h'. lower_bound_left 3 0 2 (two_bimap, two_heap) = Inr (left_iterator 0 (Some 1), b', h')) \<and>
   (\<exists>b' h'. upper_bound_left 3 0 2 (two_bimap, two_heap) = Inr (end_left 0, b', h')) \<and>
   (\<exists>b' h'. lower_bound_right 3 0 0 (two_bimap, two_heap) = Inr (right_iterator 0 (Some 0), b', h')) \<and>
   (\<exists>b' h'. upper_bound_right 3 0 1 (two_bimap, two_heap) = Inr (right_iterator 0 (Some 1), b', h')) \<and>
   bimap_inv (down_bimap, down_heap) two_shape two_shape \<and>
   (\<exists>b' h'. lower_bound_left 3 0 5 (down_bimap, down_heap) = Inr (left_iterator 0 (Some 0), b', h')) \<and>
   (\<exists>b' h'. upper_bound_left 3 0 5 (down_bimap, down_heap) = Inr (left_iterator 0 (Some 1), b', h')) \<and>
   (\<exists>b' h'. lower_bound_right 3 0 2 (down_bimap, down_heap) = Inr (end_right 0, b', h'))"
proof -
  have b: "length (inorder two_shape) < 3" by (simp add: two_shape_order)
  have k: "key left_descriptor_t two_heap 0 = 1" "key left_descriptor_t two_heap 1 = 2"
    "key right_descriptor_t two_heap 0 = 1" "key right_descriptor_t two_heap 1 = 2"
    by (simp_all add: key_def two_heap_def left_descriptor_t_def right_descriptor_t_def)
  have c: "left_compare two_bimap = (<)" "right_compare two_bimap = (<)"
    by (simp_all add: two_bimap_def)
  note t1 = bounds_left_right[OF two_state_inv b, of 0 2 0, unfolded two_shape_order]
  note t2 = bounds_left_right[OF two_state_inv b, of 0 2 1, unfolded two_shape_order]
  have 1: "\<exists>b' h'. lower_bound_left 3 0 2 (two_bimap, two_heap)
      = Inr (left_iterator 0 (Some 1), b', h')"
    using t1 k c by auto
  have 2: "\<exists>b' h'. upper_bound_left 3 0 2 (two_bimap, two_heap) = Inr (end_left 0, b', h')"
    using t1 k c by (auto simp: end_left_def)
  have 3: "\<exists>b' h'. lower_bound_right 3 0 0 (two_bimap, two_heap)
      = Inr (right_iterator 0 (Some 0), b', h')"
    using t1 k c by auto
  have 4: "\<exists>b' h'. upper_bound_right 3 0 1 (two_bimap, two_heap)
      = Inr (right_iterator 0 (Some 1), b', h')"
    using t2 k c by auto
  have kd: "key left_descriptor_t down_heap 0 = 5" "key left_descriptor_t down_heap 1 = 3"
    "key right_descriptor_t down_heap 0 = 9" "key right_descriptor_t down_heap 1 = 4"
    by (simp_all add: key_def down_heap_def left_descriptor_t_def right_descriptor_t_def)
  have cd: "left_compare down_bimap = (>)" "right_compare down_bimap = (>)"
    by (simp_all add: down_bimap_def)
  note t3 = bounds_left_right[OF down_state_inv b, of 0 5 2, unfolded two_shape_order]
  have 5: "\<exists>b' h'. lower_bound_left 3 0 5 (down_bimap, down_heap)
      = Inr (left_iterator 0 (Some 0), b', h')"
    using t3 kd cd by auto
  have 6: "\<exists>b' h'. upper_bound_left 3 0 5 (down_bimap, down_heap)
      = Inr (left_iterator 0 (Some 1), b', h')"
    using t3 kd cd by auto
  have 7: "\<exists>b' h'. lower_bound_right 3 0 2 (down_bimap, down_heap)
      = Inr (end_right 0, b', h')"
    using t3 kd cd by (auto simp: end_right_def)
  show ?thesis using two_state_inv b 1 2 3 4 down_state_inv 5 6 7 by (intro conjI)
qed

text \<open>
  C7 as stated, for every comparator, fails.  Under \<open>tens_less\<close>, after \<open>insert(1, 10)\<close> and
  \<open>insert(2, 20)\<close> the Left order is (1, 10), (2, 20): the first cursor points at the
  record with Left value 1 and its successor at the one with Left value 2.  The value 1 is
  not less than 5 under the comparator, yet \<open>lower_bound_left(5)\<close> returns the cursor to
  the second record: the bound is read off the node the search ends at, which is the
  first record not less than the key only when equivalent keys are equal.
\<close>

theorem lower_bound_skips_equivalent_key:
  "(case tens_pairs of Inl e \<Rightarrow> False
    | Inr (it, b, h) \<Rightarrow>
        begin_left 4 0 b h = Inr (left_iterator 0 (Some 0)) \<and>
        increment 4 left_descriptor_t h (left_iterator 0 (Some 0))
          = Inr (left_iterator 0 (Some 1)) \<and>
        iterator_star left_descriptor_t h (left_iterator 0 (Some 0)) = Inr 1 \<and>
        \<not> left_compare b 1 5 \<and>
        (case lower_bound_left 4 0 5 (b, h) of Inl e \<Rightarrow> False
         | Inr (res, b', h') \<Rightarrow>
             res = left_iterator 0 (Some 1) \<and>
             iterator_star left_descriptor_t h' res = Inr 2 \<and>
             begin_left 4 0 b' h' = Inr (left_iterator 0 (Some 0))))"
  unfolding tens_pairs_def
  by code_simp




end
